theory Spec2Isabelle
  imports Main "HOL-Library.Monad_Syntax" "HOL-Library.Sublist"
begin

section \<open>Node model\<close>

text \<open>
  The module \<^verbatim>\<open>parser_utils.py\<close> works on the parse trees of the lark library:
  a \<^verbatim>\<open>Token\<close> carries a terminal category (\<^verbatim>\<open>.type\<close>) and its source text
  (\<^verbatim>\<open>.value\<close>), a \<^verbatim>\<open>Tree\<close> carries a grammar-rule name (\<^verbatim>\<open>.data\<close>) and an
  ordered list of children. Strings are lists of 8-bit characters, read as the code
  points 0 to 255.
\<close>

datatype node = Token string string | Tree string "node list"

fun is_tree :: "node \<Rightarrow> bool" where
  "is_tree (Tree d cs) = True"
| "is_tree (Token ty v) = False"

fun is_token :: "node \<Rightarrow> bool" where
  "is_token (Token ty v) = True"
| "is_token (Tree d cs) = False"

text \<open>\<^verbatim>\<open>isinstance(ch, Tree) and ch.data == d\<close>\<close>

fun is_tree_of :: "string \<Rightarrow> node \<Rightarrow> bool" where
  "is_tree_of d (Tree d' cs) = (d' = d)"
| "is_tree_of d (Token ty v) = False"

text \<open>\<^verbatim>\<open>isinstance(ch, Token) and ch.type == ty\<close>\<close>

fun is_token_of :: "string \<Rightarrow> node \<Rightarrow> bool" where
  "is_token_of ty (Token ty' v) = (ty' = ty)"
| "is_token_of ty (Tree d cs) = False"

fun children :: "node \<Rightarrow> node list" where
  "children (Tree d cs) = cs"
| "children (Token ty v) = []"

text \<open>The text of a Leaf; only applied to tokens (an Interior node has no \<^verbatim>\<open>.value\<close>).\<close>

fun token_value :: "node \<Rightarrow> string" where
  "token_value (Token ty v) = v"
| "token_value (Tree d cs) = []"

text \<open>
  \<^verbatim>\<open>Tree.scan_values(pred)\<close> of lark yields, depth first and left to right, every
  non-Tree child below the node that satisfies the predicate.
\<close>

fun scan_values :: "(node \<Rightarrow> bool) \<Rightarrow> node \<Rightarrow> node list" where
  "scan_values pred (Token ty v) = []"
| "scan_values pred (Tree d cs) =
     concat (map (\<lambda>c. if is_tree c then scan_values pred c
                       else if pred c then [c] else []) cs)"

text \<open>
  \<^verbatim>\<open>Tree.iter_subtrees_topdown()\<close> of lark yields the node itself and then every
  Interior node below it, in pre-order, children left to right; tokens are skipped.
\<close>

fun iter_subtrees_topdown :: "node \<Rightarrow> node list" where
  "iter_subtrees_topdown (Token ty v) = []"
| "iter_subtrees_topdown (Tree d cs) = Tree d cs # concat (map iter_subtrees_topdown cs)"

text \<open>\<^verbatim>\<open>next((ch for ch in xs if P(ch)), None)\<close> is \<^const>\<open>find\<close>.\<close>

section \<open>Python string operations\<close>

text \<open>\<^verbatim>\<open>sep.join(xs)\<close>\<close>

fun str_join :: "string \<Rightarrow> string list \<Rightarrow> string" where
  "str_join sep [] = []"
| "str_join sep [x] = x"
| "str_join sep (x # y # ys) = x @ sep @ str_join sep (y # ys)"

text \<open>
  \<^verbatim>\<open>s.replace(old, new)\<close>: the non-overlapping occurrences of \<^verbatim>\<open>old\<close> are replaced
  from left to right. (For an empty \<^verbatim>\<open>old\<close> Python inserts \<^verbatim>\<open>new\<close> before every
  character and at the end; the module only ever replaces two-character patterns.)
\<close>

function str_replace :: "string \<Rightarrow> string \<Rightarrow> string \<Rightarrow> string" where
  "str_replace old new s =
     (if old = [] then new @ concat (map (\<lambda>c. c # new) s)
      else if s = [] then []
      else if prefix old s then new @ str_replace old new (drop (length old) s)
      else hd s # str_replace old new (tl s))"
  by pat_completeness auto
termination
  by (relation "measure (\<lambda>(old, new, s). length s)") auto

declare str_replace.simps [simp del]

text \<open>
  \<^verbatim>\<open>s.strip()\<close> removes leading and trailing whitespace. Among the code points 0 to 255
  the whitespace of \<^verbatim>\<open>str.isspace\<close> is the space, the controls 9 to 13 and 28 to 31,
  the next-line control 0x85 and the no-break space 0xA0.
\<close>

definition is_space :: "char \<Rightarrow> bool" where
  "is_space c = (c \<in> set [CHR '' '', CHR 0x09, CHR 0x0A, CHR 0x0B, CHR 0x0C, CHR 0x0D,
                            CHR 0x1C, CHR 0x1D, CHR 0x1E, CHR 0x1F, CHR 0x85, CHR 0xA0])"

definition str_strip :: "string \<Rightarrow> string" where
  "str_strip s = rev (dropWhile is_space (rev (dropWhile is_space s)))"

text \<open>
  The cosmetic fix-ups shared by all flatteners:
  \<^verbatim>\<open>s.replace(" ,", ",").replace("( ", "(").replace(" )", ")").replace(" .", ".")\<close>
\<close>

definition fixups :: "string \<Rightarrow> string" where
  "fixups s = str_replace '' .'' ''.'' (str_replace '' )'' '')''
                (str_replace ''( '' ''('' (str_replace '' ,'' '','' s)))"

section \<open>Token flattener\<close>

text \<open>\<^verbatim>\<open>_flatten_tokens_only\<close> (and the identical \<^verbatim>\<open>_flatten_expr\<close>).\<close>

fun flatten_tokens_only :: "node \<Rightarrow> string" where
  "flatten_tokens_only (Token ty v) = v"
| "flatten_tokens_only (Tree d cs) =
     str_strip (fixups (str_join '' '' (map token_value (scan_values is_token (Tree d cs)))))"

section \<open>Symbol table and call rendering\<close>

text \<open>
  \<^verbatim>\<open>sol_symbols\<close> is a dictionary from a key (\<^verbatim>\<open>"state_vars"\<close>, \<^verbatim>\<open>"functions"\<close>) to a
  set of names; \<^verbatim>\<open>sol_symbols.get(k, set())\<close> reads a missing key as the empty set.
\<close>

type_synonym sol_symbols = "string \<rightharpoonup> string set"

definition symbols_get :: "sol_symbols \<Rightarrow> string \<Rightarrow> string set" where
  "symbols_get syms k = (case syms k of None \<Rightarrow> {} | Some s \<Rightarrow> s)"

text \<open>\<^verbatim>\<open>_render_call(name, args, sol_symbols)\<close>\<close>

definition render_call :: "string \<Rightarrow> string list \<Rightarrow> sol_symbols \<Rightarrow> string" where
  "render_call name args syms =
     (if name \<in> symbols_get syms ''state_vars'' then
        (if args = [] then name
         else if length args = 1 then name @ ''['' @ args ! 0 @ '']''
         else name @ ''['' @ str_join '']['' args @ '']'')
      else name @ ''('' @ str_join '', '' args @ '')'')"

section \<open>Symbol-aware renderer\<close>

text \<open>
  The body of \<^verbatim>\<open>_flatten_expr_with_symbols_list\<close>: render every node, join with single
  spaces, apply the fix-ups and strip. The renderer of a single node is a parameter, so
  that the mutual recursion of the source (\<^verbatim>\<open>_flatten_expr_with_symbols\<close> calls
  \<^verbatim>\<open>_flatten_expr_with_symbols_list\<close>, which calls it back) is one recursive function.
\<close>

definition flatten_list_with :: "(node \<Rightarrow> string) \<Rightarrow> node list \<Rightarrow> string" where
  "flatten_list_with f nodes = str_strip (fixups (str_join '' '' (map f nodes)))"

lemma flatten_list_with_cong [fundef_cong]:
  "nodes = nodes' \<Longrightarrow> (\<And>n. n \<in> set nodes' \<Longrightarrow> f n = g n) \<Longrightarrow>
     flatten_list_with f nodes = flatten_list_with g nodes'"
  unfolding flatten_list_with_def by (simp cong: map_cong)

text \<open>\<^verbatim>\<open>isinstance(ch, Token) and ch.value == ","\<close>\<close>

fun is_comma :: "node \<Rightarrow> bool" where
  "is_comma (Token ty v) = (v = '','')"
| "is_comma (Tree d cs) = False"

text \<open>
  The comma loop, written three times in the source (in \<^verbatim>\<open>_flatten_expr_with_symbols\<close>,
  in \<^verbatim>\<open>_collect_call_like_from_expr\<close> and in \<^verbatim>\<open>_split_call_args\<close>):
  \<^verbatim>\<open>
  for ch in nodes:
      if isinstance(ch, Token) and ch.value == ",":
          if cur:
              args.append(render(cur)); cur = []
      else:
          cur.append(ch)
  if cur:
      args.append(render(cur))
  \<close>
  with \<^verbatim>\<open>cur\<close> and \<^verbatim>\<open>args\<close> as accumulators.
\<close>

fun comma_split ::
  "(node list \<Rightarrow> string) \<Rightarrow> node list \<Rightarrow> node list \<Rightarrow> string list \<Rightarrow> string list" where
  "comma_split render [] cur args = (if cur \<noteq> [] then args @ [render cur] else args)"
| "comma_split render (ch # rest) cur args =
     (if is_comma ch then
        (if cur \<noteq> [] then comma_split render rest [] (args @ [render cur])
         else comma_split render rest cur args)
      else comma_split render rest (cur @ [ch]) args)"

lemma comma_split_cong [fundef_cong]:
  "cs = cs' \<Longrightarrow> cur = cur' \<Longrightarrow> args = args' \<Longrightarrow>
   (\<And>run. set run \<subseteq> set cs' \<union> set cur' \<Longrightarrow> r run = r' run) \<Longrightarrow>
   comma_split r cs cur args = comma_split r' cs' cur' args'"
proof (induction cs arbitrary: cs' cur cur' args args')
  case Nil
  then show ?case by simp
next
  case (Cons ch rest)
  from Cons.prems have eq: "cs' = ch # rest" "cur' = cur" "args' = args" by simp_all
  have r: "\<And>run. set run \<subseteq> set (ch # rest) \<union> set cur \<Longrightarrow> r run = r' run"
    using Cons.prems(4) eq by simp
  have a: "comma_split r rest [] (args @ [r cur]) = comma_split r' rest [] (args @ [r' cur])"
    by (rule Cons.IH) (auto simp: r intro!: r)
  have b: "comma_split r rest cur args = comma_split r' rest cur args"
    by (rule Cons.IH) (auto intro!: r)
  have c: "comma_split r rest (cur @ [ch]) args = comma_split r' rest (cur @ [ch]) args"
    by (rule Cons.IH) (auto intro!: r)
  show ?case unfolding eq using a b c by (cases "cur = []") auto
qed

text \<open>
  The callee name of a \<^verbatim>\<open>function_call\<close> node, as \<^verbatim>\<open>_get_function_call_info\<close> finds it:
  the last \<^verbatim>\<open>ID\<close> token before the first \<^verbatim>\<open>exprs\<close> child (before the end when there is
  none). \<^verbatim>\<open>children.index(exprs_node)\<close> is the position of that first \<^verbatim>\<open>exprs\<close> child.
\<close>

definition callee_name :: "node list \<Rightarrow> string option" where
  "callee_name cs =
     (let ids_before = map token_value
            (filter (is_token_of ''ID'') (takeWhile (\<lambda>ch. \<not> is_tree_of ''exprs'' ch) cs))
      in if ids_before \<noteq> [] then Some (last ids_before) else None)"

text \<open>\<^verbatim>\<open>next(iter(xs), None)\<close>\<close>

definition first_opt :: "'a list \<Rightarrow> 'a option" where
  "first_opt xs = (case xs of [] \<Rightarrow> None | x # _ \<Rightarrow> Some x)"

lemma find_in_set: "find P xs = Some x \<Longrightarrow> x \<in> set xs"
  by (induction xs) (auto split: if_splits)

lemma size_child: "n \<in> set cs \<Longrightarrow> size n < size (Tree d cs)"
  by (simp add: less_Suc_eq_le size_list_estimation')

lemma size_grandchild:
  "e \<in> set cs \<Longrightarrow> n \<in> set (children e) \<Longrightarrow> size n < size (Tree d cs)"
proof -
  assume e: "e \<in> set cs" and n: "n \<in> set (children e)"
  from n have "size n < size e"
    by (cases e) (simp_all add: less_Suc_eq_le size_list_estimation')
  also from e have "size e < size (Tree d cs)"
    by (rule size_child)
  finally show ?thesis .
qed

text \<open>
  \<^verbatim>\<open>_flatten_expr_with_symbols\<close>. For a \<^verbatim>\<open>function_call\<close> the source first calls
  \<^verbatim>\<open>_get_function_call_info\<close>, keeps the name and never uses the argument list that
  call returns (it is pure and cannot raise); the arguments given to \<^verbatim>\<open>_render_call\<close>
  come from the comma loop over the children of the \<^verbatim>\<open>exprs\<close> child. A token is truthy
  when its text is not empty (\<^verbatim>\<open>Token\<close> is a subclass of \<^verbatim>\<open>str\<close>).
\<close>

function flatten_expr_with_symbols :: "node \<Rightarrow> sol_symbols \<Rightarrow> string" where
  "flatten_expr_with_symbols (Token ty v) syms = v"
| "flatten_expr_with_symbols (Tree d cs) syms =
     (if d = ''function_call'' then
        (case callee_name cs of
           None \<Rightarrow> []
         | Some fname \<Rightarrow>
             render_call fname
               (case find (is_tree_of ''exprs'') cs of
                  None \<Rightarrow> []
                | Some exprs_node \<Rightarrow>
                    comma_split (flatten_list_with (\<lambda>n. flatten_expr_with_symbols n syms))
                      (children exprs_node) [] [])
               syms)
      else if d = ''special_var_attribute_call'' then
        (case (first_opt (scan_values (is_token_of ''ID'') (Tree d cs)),
               first_opt (scan_values (is_token_of ''SUM'') (Tree d cs))) of
           (Some name_tok, Some attr_tok) \<Rightarrow>
             if token_value name_tok \<noteq> [] \<and> token_value attr_tok \<noteq> []
             then token_value name_tok @ ''.'' @ token_value attr_tok
             else flatten_tokens_only (Tree d cs)
         | _ \<Rightarrow> flatten_tokens_only (Tree d cs))
      else if d = ''contract_attribute_call'' then
        (case find (is_tree_of ''contract_attribute'') cs of
           None \<Rightarrow> ''contract''
         | Some attr_node \<Rightarrow>
             (let attr_txt = flatten_tokens_only attr_node
              in if attr_txt \<noteq> [] then ''contract.'' @ attr_txt else ''contract''))
      else flatten_list_with (\<lambda>ch. flatten_expr_with_symbols ch syms) cs)"
  by pat_completeness auto
termination
  apply (relation "measure (\<lambda>(n, syms). size n)")
    apply simp
   apply (auto dest!: find_in_set intro: size_grandchild simp del: node.size)[1]
  apply (auto intro: size_child simp del: node.size)[1]
  done

declare flatten_expr_with_symbols.simps(2) [simp del]

text \<open>\<^verbatim>\<open>_flatten_expr_with_symbols_list(nodes, sol_symbols)\<close>\<close>

definition flatten_expr_with_symbols_list :: "node list \<Rightarrow> sol_symbols \<Rightarrow> string" where
  "flatten_expr_with_symbols_list nodes syms =
     flatten_list_with (\<lambda>n. flatten_expr_with_symbols n syms) nodes"

section \<open>Call-argument splitter\<close>

text \<open>\<^verbatim>\<open>_ATOM_TOKEN_TYPES\<close> and \<^verbatim>\<open>_is_atom_token\<close>\<close>

definition ATOM_TOKEN_TYPES :: "string set" where
  "ATOM_TOKEN_TYPES = {''ID'', ''INTEGER_LITERAL'', ''STRING_LITERAL'', ''TRUE'', ''FALSE''}"

fun is_atom_token :: "node \<Rightarrow> bool" where
  "is_atom_token (Token ty v) = (ty \<in> ATOM_TOKEN_TYPES)"
| "is_atom_token (Tree d cs) = False"

text \<open>
  \<^verbatim>\<open>_split_call_args(exprs_node, sol_symbols)\<close>; the parameter is an \<^verbatim>\<open>Optional[Tree]\<close>,
  and every caller passes \<^verbatim>\<open>None\<close> or a \<^verbatim>\<open>Tree\<close>.
\<close>

definition split_call_args :: "node option \<Rightarrow> sol_symbols \<Rightarrow> string list" where
  "split_call_args exprs_node syms =
     (case exprs_node of
        None \<Rightarrow> []
      | Some e \<Rightarrow>
          if list_ex is_tree (children e)
          then [str_strip (flatten_expr_with_symbols_list (children e) syms)]
          else
            (let toks = filter is_token (children e) in
             if toks = [] then []
             else if list_ex is_comma toks
             then map str_strip
                    (comma_split (\<lambda>cur. flatten_expr_with_symbols_list cur syms) toks [] [])
             else if list_all is_atom_token toks then map token_value toks
             else [str_strip (flatten_expr_with_symbols_list toks syms)]))"

text \<open>\<^verbatim>\<open>_get_function_call_info(call_tree)\<close>: the splitter is called with an empty table.\<close>

definition get_function_call_info :: "node \<Rightarrow> string option \<times> string list" where
  "get_function_call_info call_tree =
     (callee_name (children call_tree),
      split_call_args (find (is_tree_of ''exprs'') (children call_tree)) Map.empty)"

section \<open>Call collection\<close>

text \<open>
  The dictionaries built by \<^verbatim>\<open>_collect_call_like_from_expr\<close>, with the keys \<^verbatim>\<open>name\<close>,
  \<^verbatim>\<open>args\<close>, \<^verbatim>\<open>decl_kind\<close>, \<^verbatim>\<open>attr\<close> and \<^verbatim>\<open>rendered\<close>. The key \<^verbatim>\<open>attr\<close> is absent from the
  descriptor of a \<^verbatim>\<open>function_call\<close> (\<^const>\<open>None\<close>), and present with the value \<^verbatim>\<open>None\<close>
  or a string in the other two kinds.
\<close>

record call_descriptor =
  d_name :: string
  d_args :: "string list"
  decl_kind :: string
  attr :: "string option option"
  rendered :: string

text \<open>
  \<^verbatim>\<open>s.lower()\<close>: among the code points 0 to 255 the letters with a lower-case form are
  \<^verbatim>\<open>A\<close> to \<^verbatim>\<open>Z\<close> (65 to 90) and 0xC0 to 0xDE without the multiplication sign 0xD7; the
  lower-case form is 32 above.
\<close>

definition str_lower :: "string \<Rightarrow> string" where
  "str_lower s = map (\<lambda>c. let n = (of_char c :: nat)
                           in if (65 \<le> n \<and> n \<le> 90) \<or> (192 \<le> n \<and> n \<le> 222 \<and> n \<noteq> 215)
                              then char_of (n + 32) else c) s"

text \<open>
  The argument list both \<^verbatim>\<open>_flatten_expr_with_symbols\<close> and
  \<^verbatim>\<open>_collect_call_like_from_expr\<close> give to \<^verbatim>\<open>_render_call\<close> for a call node with the
  children \<open>cs\<close>: the comma loop over the children of the first \<^verbatim>\<open>exprs\<close> child.
\<close>

definition call_args :: "node list \<Rightarrow> sol_symbols \<Rightarrow> string list" where
  "call_args cs syms =
     (case find (is_tree_of ''exprs'') cs of
        None \<Rightarrow> []
      | Some exprs_node \<Rightarrow>
          comma_split (\<lambda>cur. flatten_expr_with_symbols_list cur syms)
            (children exprs_node) [] [])"

text \<open>
  The body of the first loop of \<^verbatim>\<open>_collect_call_like_from_expr\<close> for one subtree;
  \<^const>\<open>None\<close> is \<^verbatim>\<open>continue\<close> (not a \<^verbatim>\<open>function_call\<close>, or \<^verbatim>\<open>not fname\<close>: no name
  or an empty one).
\<close>

definition function_call_descriptor :: "node \<Rightarrow> sol_symbols \<Rightarrow> call_descriptor option" where
  "function_call_descriptor fc syms =
     (if \<not> is_tree_of ''function_call'' fc then None
      else case fst (get_function_call_info fc) of
        None \<Rightarrow> None
      | Some fname \<Rightarrow>
          if fname = [] then None
          else
            (let fargs = call_args (children fc) syms;
                 kind = (if fname \<in> symbols_get syms ''state_vars'' then ''state_var''
                         else if fname \<in> symbols_get syms ''functions'' then ''function''
                         else ''unknown'')
             in Some \<lparr>d_name = fname, d_args = fargs, decl_kind = kind, attr = None,
                      rendered = render_call fname fargs syms\<rparr>))"

text \<open>The body of the second loop.\<close>

definition special_var_descriptor :: "node \<Rightarrow> call_descriptor option" where
  "special_var_descriptor sv =
     (if \<not> is_tree_of ''special_var_attribute_call'' sv then None
      else
        (let id_tok = first_opt (scan_values (is_token_of ''ID'') sv);
             attr_tok = first_opt (scan_values (is_token_of ''SUM'') sv);
             nm = (case id_tok of None \<Rightarrow> None | Some t \<Rightarrow> Some (token_value t));
             attr_txt = (case attr_tok of
                           None \<Rightarrow> None
                         | Some t \<Rightarrow> if token_value t = [] then None
                                     else Some (str_lower (token_value t)))
         in case nm of
              None \<Rightarrow> None
            | Some n \<Rightarrow>
                if n = [] then None
                else Some \<lparr>d_name = n, d_args = [], decl_kind = ''state_var_attr'',
                           attr = Some attr_txt,
                           rendered = (case attr_txt of
                                         None \<Rightarrow> n
                                       | Some a \<Rightarrow> if a = [] then n else n @ ''.'' @ a)\<rparr>))"

text \<open>The body of the third loop.\<close>

definition contract_attr_descriptor :: "node \<Rightarrow> call_descriptor option" where
  "contract_attr_descriptor ca =
     (if \<not> is_tree_of ''contract_attribute_call'' ca then None
      else
        (let attr_txt = (case find (is_tree_of ''contract_attribute'') (children ca) of
                           None \<Rightarrow> None
                         | Some attr_node \<Rightarrow> Some (flatten_tokens_only attr_node))
         in Some \<lparr>d_name = ''contract'', d_args = [], decl_kind = ''contract_attr'',
                  attr = Some attr_txt,
                  rendered = (case attr_txt of
                                None \<Rightarrow> ''contract''
                              | Some a \<Rightarrow> if a = [] then ''contract''
                                          else ''contract.'' @ a)\<rparr>))"

text \<open>\<^verbatim>\<open>_collect_call_like_from_expr(expr_node, sol_symbols)\<close>: three scans, one after the other.\<close>

definition collect_call_like_from_expr :: "node option \<Rightarrow> sol_symbols \<Rightarrow> call_descriptor list" where
  "collect_call_like_from_expr expr_node syms =
     (case expr_node of
        None \<Rightarrow> []
      | Some e \<Rightarrow>
          List.map_filter (\<lambda>fc. function_call_descriptor fc syms) (iter_subtrees_topdown e)
          @ List.map_filter special_var_descriptor (iter_subtrees_topdown e)
          @ List.map_filter contract_attr_descriptor (iter_subtrees_topdown e))"

section \<open>Precedence-aware structural formatter\<close>

text \<open>\<^verbatim>\<open>BIN_PRECEDENCE\<close>\<close>

definition BIN_PRECEDENCE :: "string \<rightharpoonup> nat" where
  "BIN_PRECEDENCE = map_of
     [(''||'', 1), (''&&'', 2),
      (''=>'', 3), (''<=>'', 4),
      (''=='', 5), (''!='', 5),
      (''<'', 6), (''<='', 6), (''>'', 6), (''>='', 6),
      (''+'', 7), (''-'', 7),
      (''*'', 8), (''/'', 8), (''%'', 8)]"

text \<open>
  The module assigns \<^verbatim>\<open>UNARY_PRECEDENCE\<close> twice at top level, first 9 and two lines
  later 7. \<^verbatim>\<open>fmt\<close> reads the global when it runs, after the module has been loaded, so
  it sees the value of the last assignment.
\<close>

definition UNARY_PRECEDENCE_assignments :: "nat list" where
  "UNARY_PRECEDENCE_assignments = [9, 7]"

definition UNARY_PRECEDENCE :: nat where
  "UNARY_PRECEDENCE = last UNARY_PRECEDENCE_assignments"

text \<open>
  In the formatter \<^const>\<open>None\<close> stands for a raised exception (\<^verbatim>\<open>IndexError\<close>,
  \<^verbatim>\<open>AttributeError\<close> or \<^verbatim>\<open>KeyError\<close>). \<^verbatim>\<open>xs[i]\<close> raises \<^verbatim>\<open>IndexError\<close> out of range.
\<close>

type_synonym fmt_result = "(string \<times> nat) option"

definition nth_opt :: "'a list \<Rightarrow> nat \<Rightarrow> 'a option" where
  "nth_opt xs i = (if i < length xs then Some (xs ! i) else None)"

text \<open>
  \<^verbatim>\<open>n.children[0].value\<close>: \<^verbatim>\<open>AttributeError\<close> when \<open>n\<close> is a token (no \<^verbatim>\<open>.children\<close>) or
  its first child is a tree (no \<^verbatim>\<open>.value\<close>), \<^verbatim>\<open>IndexError\<close> when it has no child.
\<close>

fun first_child_value :: "node \<Rightarrow> string option" where
  "first_child_value (Tree d (Token ty v # rest)) = Some v"
| "first_child_value (Tree d (Tree d' cs # rest)) = None"
| "first_child_value (Tree d []) = None"
| "first_child_value (Token ty v) = None"

text \<open>\<^verbatim>\<open>n.value\<close>: \<^verbatim>\<open>AttributeError\<close> on a tree.\<close>

fun value_of :: "node \<Rightarrow> string option" where
  "value_of (Token ty v) = Some v"
| "value_of (Tree d cs) = None"

text \<open>\<^verbatim>\<open>a.children[0].value if getattr(a, "children", None) else a.value\<close>\<close>

fun contract_attr_value :: "node \<Rightarrow> string option" where
  "contract_attr_value (Token ty v) = Some v"
| "contract_attr_value (Tree d []) = None"
| "contract_attr_value (Tree d (c # rest)) = value_of c"

definition paren :: "string \<Rightarrow> string" where
  "paren t = ''('' @ t @ '')''"

text \<open>\<^verbatim>\<open>mp = 0; for ...: mp = max(mp, p)\<close>\<close>

definition max_prec :: "nat list \<Rightarrow> nat" where
  "max_prec ps = fold (\<lambda>p mp. max mp p) ps 0"

lemma nth_opt_in_set: "nth_opt xs i = Some x \<Longrightarrow> x \<in> set xs"
  by (auto simp: nth_opt_def split: if_splits)

text \<open>
  The branches of \<^verbatim>\<open>fmt(node)\<close>, in the order of the source, each with the formatter
  for the recursive calls as the parameter \<open>rec\<close> and the children of the node as \<open>cs\<close>.
  A loop that formats every child stops at the first child whose formatting raises:
  \<^const>\<open>those\<close> of the results.
\<close>

text \<open>Quantified expression (taken when the first of at least four children is a
  \<^verbatim>\<open>QUANTIFIER\<close> token).\<close>

definition fmt_quantifier :: "(node \<Rightarrow> fmt_result) \<Rightarrow> node list \<Rightarrow> fmt_result" where
  "fmt_quantifier rec cs =
     do {
       quant_tok \<leftarrow> nth_opt cs 0;
       type_node \<leftarrow> nth_opt cs 1;
       var_tok \<leftarrow> nth_opt cs 2;
       body_node \<leftarrow> nth_opt cs 3;
       (type_txt, _) \<leftarrow> rec type_node;
       (var_txt, _) \<leftarrow> rec var_tok;
       (body_txt, _) \<leftarrow> rec body_node;
       Some (token_value quant_tok @ '' ('' @ type_txt @ '' '' @ var_txt @ '') '' @ body_txt, 100)
     }"

text \<open>\<^verbatim>\<open>unary_expr\<close>\<close>

definition fmt_unary :: "(node \<Rightarrow> fmt_result) \<Rightarrow> node list \<Rightarrow> fmt_result" where
  "fmt_unary rec cs =
     do {
       op_node \<leftarrow> nth_opt cs 0;
       op \<leftarrow> first_child_value op_node;
       operand \<leftarrow> nth_opt cs 1;
       (t, p) \<leftarrow> rec operand;
       Some (op @ (if p < UNARY_PRECEDENCE then paren t else t), UNARY_PRECEDENCE)
     }"

text \<open>\<^verbatim>\<open>special_var_attribute_call\<close>\<close>

definition fmt_special_var :: "(node \<Rightarrow> fmt_result) \<Rightarrow> node list \<Rightarrow> fmt_result" where
  "fmt_special_var rec cs =
     do {
       base \<leftarrow> nth_opt cs 0;
       attr_node \<leftarrow> nth_opt cs 1;
       (base_txt, _) \<leftarrow> rec base;
       attr_val \<leftarrow> first_child_value attr_node;
       if attr_val = ''sum'' then Some (''__verifier_sum_uint('' @ base_txt @ '')'', 100)
       else if attr_val = ''isum'' then Some (''__verifier_sum_int('' @ base_txt @ '')'', 100)
       else Some (base_txt @ ''.'' @ attr_val, 100)
     }"

text \<open>\<^verbatim>\<open>contract_attribute_call\<close>\<close>

definition fmt_contract_attr :: "node list \<Rightarrow> fmt_result" where
  "fmt_contract_attr cs =
     do {
       c \<leftarrow> nth_opt cs 0;
       a \<leftarrow> nth_opt cs 1;
       attr_val \<leftarrow> contract_attr_value a;
       if attr_val = ''address'' then Some (''address(this)'', 100)
       else if attr_val = ''balance'' then Some (''address(this).balance'', 100)
       else do { cv \<leftarrow> value_of c; Some (cv @ ''.'' @ attr_val, 100) }
     }"

text \<open>
  \<^verbatim>\<open>function_call\<close>, and the fallback of \<^verbatim>\<open>cast_function_expr\<close>: the dotted \<^verbatim>\<open>ID\<close> tokens,
  and the formatted Interior children of the \<^verbatim>\<open>exprs\<close> child as arguments.
\<close>

definition fmt_call :: "(node \<Rightarrow> fmt_result) \<Rightarrow> node list \<Rightarrow> fmt_result" where
  "fmt_call rec cs =
     do {
       args \<leftarrow> (case find (is_tree_of ''exprs'') cs of
                  None \<Rightarrow> Some []
                | Some exprs_node \<Rightarrow> those (map rec (filter is_tree (children exprs_node))));
       Some (str_join ''.'' (map token_value (filter (is_token_of ''ID'') cs))
               @ ''('' @ str_join '', '' (map fst args) @ '')'', 10)
     }"

text \<open>\<^verbatim>\<open>cast_function_expr\<close>; an empty cast name is falsy.\<close>

definition fmt_cast :: "(node \<Rightarrow> fmt_result) \<Rightarrow> node list \<Rightarrow> fmt_result" where
  "fmt_cast rec cs =
     (case (first_opt (map flatten_tokens_only (filter (is_tree_of ''cast_function'') cs)),
            first_opt (map token_value (filter (is_token_of ''INTEGER_LITERAL'') cs))) of
        (Some cast_name, Some arg_txt) \<Rightarrow>
          if cast_name \<noteq> [] then Some (cast_name @ ''('' @ arg_txt @ '')'', 10)
          else fmt_call rec cs
      | _ \<Rightarrow> fmt_call rec cs)"

text \<open>\<^verbatim>\<open>index\<close> and \<^verbatim>\<open>attribute\<close>\<close>

definition fmt_index :: "(node \<Rightarrow> fmt_result) \<Rightarrow> node list \<Rightarrow> fmt_result" where
  "fmt_index rec cs =
     do {
       items \<leftarrow> those (map rec cs);
       Some (concat (map (\<lambda>(t, _). ''['' @ t @ '']'') items), 100)
     }"

definition fmt_attribute :: "(node \<Rightarrow> fmt_result) \<Rightarrow> node list \<Rightarrow> fmt_result" where
  "fmt_attribute rec cs =
     do {
       items \<leftarrow> those (map rec cs);
       Some (concat (map (\<lambda>(t, _). ''.'' @ t) items), 100)
     }"

text \<open>\<^verbatim>\<open>exprs\<close>: a single child is a parenthesized expression.\<close>

definition fmt_exprs :: "(node \<Rightarrow> fmt_result) \<Rightarrow> node list \<Rightarrow> fmt_result" where
  "fmt_exprs rec cs =
     (if length cs = 1 then
        do {
          inner \<leftarrow> nth_opt cs 0;
          (inner_txt, _) \<leftarrow> rec inner;
          Some (paren inner_txt, 100)
        }
      else
        do {
          parts \<leftarrow> those (map rec cs);
          Some (str_join '', '' (map fst parts), 100)
        })"

text \<open>\<^verbatim>\<open>logic_bi_expr\<close>; \<^verbatim>\<open>BIN_PRECEDENCE[op]\<close> raises \<^verbatim>\<open>KeyError\<close> for an unknown operator.\<close>

definition fmt_logic_bi :: "(node \<Rightarrow> fmt_result) \<Rightarrow> node list \<Rightarrow> fmt_result" where
  "fmt_logic_bi rec cs =
     do {
       left \<leftarrow> nth_opt cs 0;
       op_node \<leftarrow> nth_opt cs 1;
       right \<leftarrow> nth_opt cs 2;
       op \<leftarrow> first_child_value op_node;
       my_prec \<leftarrow> BIN_PRECEDENCE op;
       if op = ''=>'' then
         do {
           (ltxt, lp) \<leftarrow> rec left;
           (rtxt, rp) \<leftarrow> rec right;
           Some ((if lp < my_prec then paren ltxt else ltxt) @ '' '' @ op @ '' ''
                   @ (if rp \<le> my_prec then paren rtxt else rtxt), my_prec)
         }
       else
         do {
           (ltxt, lp) \<leftarrow> rec left;
           (rtxt, rp) \<leftarrow> rec right;
           Some ((if lp < my_prec then paren ltxt else ltxt) @ '' '' @ op @ '' ''
                   @ (if rp < my_prec then paren rtxt else rtxt), my_prec)
         }
     }"

text \<open>The last fallback: all children formatted, texts joined by a space, the largest
  precedence reported.\<close>

definition fmt_join :: "(node \<Rightarrow> fmt_result) \<Rightarrow> node list \<Rightarrow> fmt_result" where
  "fmt_join rec cs =
     do {
       parts \<leftarrow> those (map rec cs);
       Some (str_join '' '' (map fst parts), max_prec (map snd parts))
     }"

text \<open>\<^verbatim>\<open>bi_expr\<close> and \<^verbatim>\<open>compare_bi_expr\<close>; \<^verbatim>\<open>BIN_PRECEDENCE.get(op, 1)\<close>.\<close>

definition fmt_bi :: "(node \<Rightarrow> fmt_result) \<Rightarrow> node list \<Rightarrow> fmt_result" where
  "fmt_bi rec cs =
     (if length cs = 3
         \<and> (is_tree_of ''binop'' (cs ! 1) \<or> is_tree_of ''compare_binop'' (cs ! 1)) then
        do {
          left \<leftarrow> nth_opt cs 0;
          op_node \<leftarrow> nth_opt cs 1;
          right \<leftarrow> nth_opt cs 2;
          op \<leftarrow> first_child_value op_node;
          prec \<leftarrow> Some (case BIN_PRECEDENCE op of None \<Rightarrow> 1 | Some q \<Rightarrow> q);
          (ltxt, lp) \<leftarrow> rec left;
          (rtxt, rp) \<leftarrow> rec right;
          Some ((if lp < prec then paren ltxt else ltxt) @ '' '' @ op @ '' ''
                  @ (if rp < prec then paren rtxt else rtxt), prec)
        }
      else fmt_join rec cs)"

text \<open>The suffix shapes of \<^verbatim>\<open>expr\<close> and \<^verbatim>\<open>modify_var\<close>: the texts of all (two or three)
  children, concatenated.\<close>

definition fmt_concat :: "(node \<Rightarrow> fmt_result) \<Rightarrow> node list \<Rightarrow> fmt_result" where
  "fmt_concat rec cs =
     do {
       parts \<leftarrow> those (map rec cs);
       Some (concat (map fst parts), 100)
     }"

lemma those_map_cong:
  "(\<And>n. n \<in> set xs \<Longrightarrow> f n = g n) \<Longrightarrow> those (map f xs) = those (map g xs)"
  by (simp cong: map_cong)

lemma rec_at_child:
  "(\<And>n. n \<in> set cs \<Longrightarrow> f n = g n) \<Longrightarrow> nth_opt cs i = Some x \<Longrightarrow> f x = g x"
  by (simp add: nth_opt_in_set)

lemma fmt_quantifier_cong [fundef_cong]:
  assumes "cs = cs'" and "\<And>n. n \<in> set cs' \<Longrightarrow> f n = g n"
  shows "fmt_quantifier f cs = fmt_quantifier g cs'"
  unfolding fmt_quantifier_def assms(1)
  by (intro Option.bind_cong refl) (simp_all add: rec_at_child [of cs' f g, OF assms(2)])

lemma fmt_unary_cong [fundef_cong]:
  assumes "cs = cs'" and "\<And>n. n \<in> set cs' \<Longrightarrow> f n = g n"
  shows "fmt_unary f cs = fmt_unary g cs'"
  unfolding fmt_unary_def assms(1)
  by (intro Option.bind_cong refl) (simp_all add: rec_at_child [of cs' f g, OF assms(2)])

lemma fmt_special_var_cong [fundef_cong]:
  assumes "cs = cs'" and "\<And>n. n \<in> set cs' \<Longrightarrow> f n = g n"
  shows "fmt_special_var f cs = fmt_special_var g cs'"
  unfolding fmt_special_var_def assms(1)
  by (intro Option.bind_cong refl) (simp_all add: rec_at_child [of cs' f g, OF assms(2)])

lemma fmt_call_cong [fundef_cong]:
  assumes "cs = cs'"
    and "\<And>e n. e \<in> set cs' \<Longrightarrow> n \<in> set (children e) \<Longrightarrow> f n = g n"
  shows "fmt_call f cs = fmt_call g cs'"
proof -
  have "those (map f (filter is_tree (children e))) = those (map g (filter is_tree (children e)))"
    if "find (is_tree_of ''exprs'') cs' = Some e" for e
    using that assms(2) by (intro those_map_cong) (auto dest: find_in_set)
  then show ?thesis
    unfolding fmt_call_def assms(1) by (simp split: option.splits)
qed

lemma fmt_cast_cong [fundef_cong]:
  assumes "cs = cs'"
    and "\<And>e n. e \<in> set cs' \<Longrightarrow> n \<in> set (children e) \<Longrightarrow> f n = g n"
  shows "fmt_cast f cs = fmt_cast g cs'"
proof -
  have a: "fmt_call f cs' = fmt_call g cs'"
    using assms(2) by (intro fmt_call_cong refl)
  show ?thesis
    unfolding fmt_cast_def assms(1) a ..
qed

lemma fmt_index_cong [fundef_cong]:
  "cs = cs' \<Longrightarrow> (\<And>n. n \<in> set cs' \<Longrightarrow> f n = g n) \<Longrightarrow> fmt_index f cs = fmt_index g cs'"
  unfolding fmt_index_def by (simp cong: map_cong)

lemma fmt_attribute_cong [fundef_cong]:
  "cs = cs' \<Longrightarrow> (\<And>n. n \<in> set cs' \<Longrightarrow> f n = g n) \<Longrightarrow>
     fmt_attribute f cs = fmt_attribute g cs'"
  unfolding fmt_attribute_def by (simp cong: map_cong)

lemma fmt_join_cong [fundef_cong]:
  "cs = cs' \<Longrightarrow> (\<And>n. n \<in> set cs' \<Longrightarrow> f n = g n) \<Longrightarrow> fmt_join f cs = fmt_join g cs'"
  unfolding fmt_join_def by (simp cong: map_cong)

lemma fmt_concat_cong [fundef_cong]:
  "cs = cs' \<Longrightarrow> (\<And>n. n \<in> set cs' \<Longrightarrow> f n = g n) \<Longrightarrow> fmt_concat f cs = fmt_concat g cs'"
  unfolding fmt_concat_def by (simp cong: map_cong)

lemma fmt_exprs_cong [fundef_cong]:
  assumes "cs = cs'" and "\<And>n. n \<in> set cs' \<Longrightarrow> f n = g n"
  shows "fmt_exprs f cs = fmt_exprs g cs'"
proof -
  have a: "those (map f cs') = those (map g cs')"
    using assms(2) by (rule those_map_cong)
  have b: "Option.bind (nth_opt cs' 0) (\<lambda>inner. Option.bind (f inner) h)
             = Option.bind (nth_opt cs' 0) (\<lambda>inner. Option.bind (g inner) h)" for h
    by (intro Option.bind_cong refl) (simp_all add: rec_at_child [of cs' f g, OF assms(2)])
  show ?thesis
    unfolding fmt_exprs_def assms(1) a b ..
qed

lemma fmt_logic_bi_cong [fundef_cong]:
  assumes "cs = cs'" and "\<And>n. n \<in> set cs' \<Longrightarrow> f n = g n"
  shows "fmt_logic_bi f cs = fmt_logic_bi g cs'"
  unfolding fmt_logic_bi_def assms(1)
  by (intro Option.bind_cong refl if_cong)
     (simp_all add: rec_at_child [of cs' f g, OF assms(2)])

lemma fmt_bi_cong [fundef_cong]:
  assumes "cs = cs'" and "\<And>n. n \<in> set cs' \<Longrightarrow> f n = g n"
  shows "fmt_bi f cs = fmt_bi g cs'"
proof -
  have a: "fmt_join f cs' = fmt_join g cs'"
    using assms(2) by (intro fmt_join_cong refl)
  show ?thesis
    unfolding fmt_bi_def assms(1) a
    by (intro Option.bind_cong refl if_cong)
       (simp_all add: rec_at_child [of cs' f g, OF assms(2)])
qed

text \<open>\<^verbatim>\<open>fmt(node)\<close> returns the text and the binding precedence.\<close>

function fmt :: "node \<Rightarrow> fmt_result" where
  "fmt (Token ty v) = Some (v, 100)"
| "fmt (Tree d cs) =
     (if d = ''expr'' \<and> 4 \<le> length cs \<and> is_token_of ''QUANTIFIER'' (cs ! 0)
      then fmt_quantifier fmt cs
      else if d = ''unary_expr'' then fmt_unary fmt cs
      else if d = ''special_var_attribute_call'' then fmt_special_var fmt cs
      else if d = ''contract_attribute_call'' then fmt_contract_attr cs
      else if d = ''function_call'' then fmt_call fmt cs
      else if d = ''cast_function_expr'' then fmt_cast fmt cs
      else if d = ''index'' then fmt_index fmt cs
      else if d = ''attribute'' then fmt_attribute fmt cs
      else if d = ''exprs'' then fmt_exprs fmt cs
      else if d = ''logic_bi_expr'' then fmt_logic_bi fmt cs
      else if d = ''bi_expr'' \<or> d = ''compare_bi_expr'' then fmt_bi fmt cs
      else if (d = ''expr'' \<or> d = ''modify_var'') \<and> length cs = 2
              \<and> is_token_of ''ID'' (cs ! 0) \<and> is_tree_of ''index'' (cs ! 1)
      then fmt_concat fmt cs
      else if (d = ''expr'' \<or> d = ''modify_var'') \<and> length cs = 2
              \<and> is_token_of ''ID'' (cs ! 0) \<and> is_tree_of ''attribute'' (cs ! 1)
      then fmt_concat fmt cs
      else if (d = ''expr'' \<or> d = ''modify_var'') \<and> length cs = 3
              \<and> is_token_of ''ID'' (cs ! 0) \<and> is_tree_of ''index'' (cs ! 1)
              \<and> is_tree_of ''attribute'' (cs ! 2)
      then fmt_concat fmt cs
      else if length cs = 1 then fmt (cs ! 0)
      else fmt_join fmt cs)"
  by pat_completeness (simp_all only: node.inject node.distinct)
termination
proof (relation "measure size")
  show "wf (measure size)" by simp
qed (simp_all only: in_measure size_child size_grandchild nth_mem
       One_nat_def lessI zero_less_Suc)

declare fmt.simps(2) [simp del]

text \<open>\<^verbatim>\<open>to_text(expr)\<close>\<close>

definition to_text :: "node \<Rightarrow> string option" where
  "to_text expr = map_option fst (fmt expr)"

section \<open>Declaration extractors\<close>

text \<open>The dictionaries \<^verbatim>\<open>{"type": ..., "name": ...}\<close> of \<^verbatim>\<open>_extract_rule_params\<close>; an absent
  name is \<^verbatim>\<open>None\<close>.\<close>

record rule_param =
  p_type :: string
  p_name :: "string option"

text \<open>
  The inner \<^verbatim>\<open>_add_param(type_node, name_tok)\<close>, with the list \<^verbatim>\<open>out\<close> it appends to as a
  parameter. \<^verbatim>\<open>name_tok.value if name_tok else None\<close>: a token with an empty text is
  falsy, as \<^verbatim>\<open>None\<close> is.
\<close>

definition add_param :: "node option \<Rightarrow> node option \<Rightarrow> rule_param list \<Rightarrow> rule_param list" where
  "add_param type_node name_tok out =
     (case type_node of
        None \<Rightarrow> out
      | Some t \<Rightarrow>
          out @ [\<lparr>p_type = flatten_tokens_only t,
                   p_name = (case name_tok of
                               None \<Rightarrow> None
                             | Some tok \<Rightarrow> if token_value tok = [] then None
                                           else Some (token_value tok))\<rparr>])"

text \<open>
  The loop that looks for the name of the first parameter:
  \<^verbatim>\<open>
  for ch in children:
      if ch is first_type:
          seen_type = True; continue
      if isinstance(ch, Tree) and ch.data == "param":
          break
      if seen_type and isinstance(ch, Token) and ch.type == "ID":
          name_tok = ch; break
  \<close>
  \<^verbatim>\<open>first_type\<close> is the first \<^verbatim>\<open>cvl_type\<close> child, so \<^verbatim>\<open>ch is first_type\<close> holds at the
  first \<^verbatim>\<open>cvl_type\<close> child the loop meets; a later \<^verbatim>\<open>cvl_type\<close> child is passed over
  by all three tests.
\<close>

fun first_param_name :: "bool \<Rightarrow> node list \<Rightarrow> node option" where
  "first_param_name seen_type [] = None"
| "first_param_name seen_type (ch # rest) =
     (if \<not> seen_type \<and> is_tree_of ''cvl_type'' ch then first_param_name True rest
      else if is_tree_of ''param'' ch then None
      else if seen_type \<and> is_token_of ''ID'' ch then Some ch
      else first_param_name seen_type rest)"

text \<open>The body of the second loop, for one child.\<close>

definition add_nested_param :: "node \<Rightarrow> rule_param list \<Rightarrow> rule_param list" where
  "add_nested_param ch out =
     (if is_tree_of ''param'' ch
      then add_param (find (is_tree_of ''cvl_type'') (children ch))
                     (find (is_token_of ''ID'') (children ch)) out
      else out)"

text \<open>\<^verbatim>\<open>_extract_rule_params(params_node)\<close>\<close>

definition extract_rule_params :: "node option \<Rightarrow> rule_param list" where
  "extract_rule_params params_node =
     (case params_node of
        None \<Rightarrow> []
      | Some pn \<Rightarrow>
          (let cs = children pn;
               first_type = find (is_tree_of ''cvl_type'') cs;
               out = (case first_type of
                        None \<Rightarrow> []
                      | Some ft \<Rightarrow> add_param (Some ft) (first_param_name False cs) [])
           in fold add_nested_param cs out))"

section \<open>Notions used in the properties\<close>

text \<open>The text of a string with all whitespace removed.\<close>

definition visible :: "string \<Rightarrow> string" where
  "visible s = filter (\<lambda>c. \<not> is_space c) s"

text \<open>
  The shapes the two binary branches of \<^verbatim>\<open>fmt\<close> accept, with the precedence each gives
  the operator: a \<^verbatim>\<open>logic_bi_expr\<close> node looks the operator up in \<^verbatim>\<open>BIN_PRECEDENCE\<close>;
  a \<^verbatim>\<open>bi_expr\<close> or \<^verbatim>\<open>compare_bi_expr\<close> node needs a \<^verbatim>\<open>binop\<close> or \<^verbatim>\<open>compare_binop\<close>
  operator child and reads an operator missing from the table as precedence 1.
\<close>

definition binary_shape :: "string \<Rightarrow> string \<Rightarrow> string \<Rightarrow> nat \<Rightarrow> bool" where
  "binary_shape d od op P =
     (if d = ''logic_bi_expr'' then BIN_PRECEDENCE op = Some P
      else (d = ''bi_expr'' \<or> d = ''compare_bi_expr'')
           \<and> (od = ''binop'' \<or> od = ''compare_binop'')
           \<and> P = (case BIN_PRECEDENCE op of None \<Rightarrow> 1 | Some q \<Rightarrow> q))"

text \<open>
  The pieces of a list of nodes between its literal commas (empty pieces included), and
  the runs: the pieces that are not empty.
\<close>

fun comma_pieces :: "node list \<Rightarrow> node list list" where
  "comma_pieces [] = [[]]"
| "comma_pieces (ch # rest) =
     (if is_comma ch then [] # comma_pieces rest
      else (ch # hd (comma_pieces rest)) # tl (comma_pieces rest))"

definition comma_runs :: "node list \<Rightarrow> node list list" where
  "comma_runs nodes = filter (\<lambda>run. run \<noteq> []) (comma_pieces nodes)"

text \<open>The texts of the Leaves under a node, in tree order.\<close>

fun leaf_texts :: "node \<Rightarrow> string list" where
  "leaf_texts (Token ty v) = [v]"
| "leaf_texts (Tree d cs) = concat (map leaf_texts cs)"

text \<open>
  A node is call free when no \<^verbatim>\<open>function_call\<close>, \<^verbatim>\<open>special_var_attribute_call\<close> or
  \<^verbatim>\<open>contract_attribute_call\<close> node occurs in it: the three node kinds the symbol-aware
  renderer does not render child by child.
\<close>

fun call_free :: "node \<Rightarrow> bool" where
  "call_free (Token ty v) = True"
| "call_free (Tree d cs) =
     (d \<noteq> ''function_call'' \<and> d \<noteq> ''special_var_attribute_call''
      \<and> d \<noteq> ''contract_attribute_call'' \<and> list_all call_free cs)"





text \<open>
  The shapes of the children of an \<^verbatim>\<open>exprs\<close> node on which the comma loop of the
  renderer and the four steps of the splitter give the same list: no child at all; only
  Leaves, one of them a comma; no comma, and an Interior child or a Leaf that is not
  atomic; a single atomic Leaf whose text the fix-ups and the strip leave as it is (any
  text without whitespace).
\<close>

fun single_stable_atom :: "node list \<Rightarrow> bool" where
  "single_stable_atom [Token ty v] = (ty \<in> ATOM_TOKEN_TYPES \<and> str_strip (fixups v) = v)"
| "single_stable_atom ks = False"

definition same_split :: "node list \<Rightarrow> bool" where
  "same_split ks =
     (ks = []
      \<or> (\<not> list_ex is_tree ks \<and> list_ex is_comma ks)
      \<or> (\<not> list_ex is_comma ks \<and> (list_ex is_tree ks \<or> \<not> list_all is_atom_token ks))
      \<or> single_stable_atom ks)"

text \<open>The name a token gives a parameter: absent without a token, or for an empty text.\<close>

definition name_of :: "node option \<Rightarrow> string option" where
  "name_of name_tok =
     (case name_tok of
        None \<Rightarrow> None
      | Some tok \<Rightarrow> if token_value tok = [] then None else Some (token_value tok))"

text \<open>
  The first \<^verbatim>\<open>ID\<close> Leaf after the leading \<^verbatim>\<open>cvl_type\<close> and before any \<^verbatim>\<open>param\<close>
  sub-node: none when a \<^verbatim>\<open>param\<close> child precedes the type; otherwise the first \<^verbatim>\<open>ID\<close>
  token among the children that follow the type, up to the first \<^verbatim>\<open>param\<close> child.
\<close>

definition leading_name :: "node list \<Rightarrow> node option" where
  "leading_name cs =
     (if list_ex (is_tree_of ''param'') (takeWhile (\<lambda>c. \<not> is_tree_of ''cvl_type'' c) cs)
      then None
      else find (is_token_of ''ID'')
             (takeWhile (\<lambda>c. \<not> is_tree_of ''param'' c)
                (tl (dropWhile (\<lambda>c. \<not> is_tree_of ''cvl_type'' c) cs))))"

text \<open>The record of a nested \<^verbatim>\<open>param\<close> sub-node: none when it has no \<^verbatim>\<open>cvl_type\<close> child.\<close>

definition param_record :: "node \<Rightarrow> rule_param list" where
  "param_record p =
     (case find (is_tree_of ''cvl_type'') (children p) of
        None \<Rightarrow> []
      | Some t \<Rightarrow> [\<lparr>p_type = flatten_tokens_only t,
                      p_name = name_of (find (is_token_of ''ID'') (children p))\<rparr>])"

section \<open>Properties of the string operations\<close>

lemma dropWhile_id: "\<forall>c\<in>set s. \<not> P c \<Longrightarrow> dropWhile P s = s"
  by (cases s) auto

lemma str_strip_clean: "\<forall>c\<in>set s. \<not> is_space c \<Longrightarrow> str_strip s = s"
  by (simp add: str_strip_def dropWhile_id)

lemma str_strip_idem: "str_strip (str_strip s) = str_strip s"
proof -
  define u where "u = dropWhile is_space s"
  define t where "t = dropWhile is_space (rev u)"
  have t: "dropWhile is_space t = t"
    unfolding t_def by (rule dropWhile_idem)
  have "takeWhile is_space (rev u) @ t = rev u"
    unfolding t_def by (rule takeWhile_dropWhile_id)
  then obtain w where u: "u = rev t @ w"
    by (metis rev_append rev_rev_ident)
  have "dropWhile is_space (rev t) = rev t"
  proof (cases "rev t")
    case Nil
    then show ?thesis by simp
  next
    case (Cons c v)
    with u have hd: "hd u = c" and ne: "u \<noteq> []"
      by auto
    from ne have "\<not> is_space (hd u)"
      unfolding u_def by (rule hd_dropWhile)
    with hd Cons show ?thesis by simp
  qed
  then show ?thesis
    unfolding str_strip_def u_def [symmetric] t_def [symmetric] by (simp add: t)
qed

lemma str_replace_absent:
  "x \<in> set old \<Longrightarrow> x \<notin> set s \<Longrightarrow> str_replace old new s = s"
proof (induction old new s rule: str_replace.induct)
  case (1 old new s)
  show ?case
  proof (cases "s = []")
    case True
    with "1.prems" show ?thesis
      by (subst str_replace.simps) auto
  next
    case False
    have np: "\<not> prefix old s"
      using "1.prems" by (auto simp: prefix_def)
    have old: "old \<noteq> []"
      using "1.prems" by auto
    have "x \<notin> set (tl s)"
      using "1.prems"(2) False by (metis list.set_sel(2))
    with "1.IH"(2) [OF old False np "1.prems"(1)]
    have "str_replace old new (tl s) = tl s" .
    with False np old show ?thesis
      by (subst str_replace.simps) simp
  qed
qed

lemma fixups_clean: "CHR '' '' \<notin> set s \<Longrightarrow> fixups s = s"
  by (simp add: fixups_def str_replace_absent [of "CHR '' ''"])

lemma visible_append [simp]: "visible (a @ b) = visible a @ visible b"
  by (simp add: visible_def)

lemma visible_Nil [simp]: "visible [] = []"
  by (simp add: visible_def)

lemma visible_dropWhile: "visible (dropWhile is_space s) = visible s"
  by (induction s) (auto simp: visible_def)

lemma visible_rev: "visible (rev s) = rev (visible s)"
  by (simp add: visible_def rev_filter)

lemma visible_strip [simp]: "visible (str_strip s) = visible s"
  by (simp add: str_strip_def visible_rev visible_dropWhile)

lemma visible_replace:
  "old \<noteq> [] \<Longrightarrow> visible old = visible new \<Longrightarrow> visible (str_replace old new s) = visible s"
proof (induction old new s rule: str_replace.induct)
  case (1 old new s)
  show ?case
  proof (cases "s = []")
    case True
    with "1.prems" show ?thesis
      by (subst str_replace.simps) simp
  next
    case False
    show ?thesis
    proof (cases "prefix old s")
      case True
      then obtain rest where s: "s = old @ rest"
        by (auto simp: prefix_def)
      have "visible (str_replace old new (drop (length old) s)) = visible (drop (length old) s)"
        using "1.IH"(1) [OF "1.prems"(1) False True "1.prems"] .
      with s "1.prems" True False show ?thesis
        by (subst str_replace.simps) simp
    next
      case np: False
      have "visible (str_replace old new (tl s)) = visible (tl s)"
        using "1.IH"(2) [OF "1.prems"(1) False np "1.prems"] .
      moreover have "s = hd s # tl s"
        using False by simp
      ultimately have "visible (hd s # str_replace old new (tl s)) = visible s"
        by (metis append_Cons append_Nil visible_append)
      with np False "1.prems" show ?thesis
        by (subst str_replace.simps) simp
    qed
  qed
qed

lemma visible_fixups [simp]: "visible (fixups s) = visible s"
proof -
  have "visible '' ,'' = visible '',''" "visible ''( '' = visible ''(''"
    "visible '' )'' = visible '')''" "visible '' .'' = visible ''.''"
    by (simp_all add: visible_def is_space_def)
  then show ?thesis
    by (simp add: fixups_def visible_replace)
qed

lemma visible_join_space: "visible (str_join '' '' xs) = concat (map visible xs)"
  by (induction "'' ''" xs rule: str_join.induct) (simp_all add: visible_def is_space_def)

section \<open>Properties of call rendering\<close>

lemma bracket_join:
  "args \<noteq> [] \<Longrightarrow>
     ''['' @ str_join '']['' args @ '']'' = concat (map (\<lambda>a. ''['' @ a @ '']'') args)"
proof (induction "''][''" args rule: str_join.induct)
  case 1
  then show ?case by simp
next
  case (2 x)
  show ?case by simp
next
  case (3 x y ys)
  then have "''['' @ str_join '']['' (y # ys) @ '']''
               = concat (map (\<lambda>a. ''['' @ a @ '']'') (y # ys))"
    by simp
  then show ?case by simp
qed

text \<open>
  C5. For every name and argument list, \<^verbatim>\<open>render_call\<close> gives: for a name in the
  \<^verbatim>\<open>state_vars\<close> set, the bare name when there is no argument and the name followed by
  one bracketed segment \<^verbatim>\<open>[a]\<close> per argument otherwise; for any other name,
  \<^verbatim>\<open>name(a1, a2, ...)\<close> with the arguments joined by a comma and a space.
\<close>

theorem render_call_forms:
  "render_call name args syms =
     (if name \<in> symbols_get syms ''state_vars''
      then (if args = [] then name else name @ concat (map (\<lambda>a. ''['' @ a @ '']'') args))
      else name @ ''('' @ str_join '', '' args @ '')'')"
proof (cases "args = []")
  case True
  then show ?thesis by (simp add: render_call_def)
next
  case False
  have one: "length args = 1 \<Longrightarrow> args = [args ! 0]"
    by (cases args) auto
  have "length args = 1 \<Longrightarrow>
          ''['' @ args ! 0 @ '']'' = concat (map (\<lambda>a. ''['' @ a @ '']'') args)"
  proof -
    assume l: "length args = 1"
    have "concat (map (\<lambda>a. ''['' @ a @ '']'') [args ! 0]) = ''['' @ args ! 0 @ '']''"
      by simp
    with one [OF l] show ?thesis by simp
  qed
  with False bracket_join [OF False] show ?thesis
    by (simp add: render_call_def)
qed

theorem render_call_forms_witness:
  "render_call ''balances'' [''addr'']
      [''state_vars'' \<mapsto> {''balances''}, ''functions'' \<mapsto> {''transfer''}] = ''balances[addr]''
   \<and> render_call ''transfer'' [''addr'', ''100'']
      [''state_vars'' \<mapsto> {''balances''}, ''functions'' \<mapsto> {''transfer''}]
        = ''transfer(addr, 100)''
   \<and> render_call ''balances'' []
      [''state_vars'' \<mapsto> {''balances''}, ''functions'' \<mapsto> {''transfer''}] = ''balances''
   \<and> render_call ''allowance'' [''a'', ''b''] [''state_vars'' \<mapsto> {''allowance''}]
        = ''allowance[a][b]''"
  using render_call_forms [of "''balances''" "[''addr'']"
          "[''state_vars'' \<mapsto> {''balances''}, ''functions'' \<mapsto> {''transfer''}]"]
        render_call_forms [of "''transfer''" "[''addr'', ''100'']"
          "[''state_vars'' \<mapsto> {''balances''}, ''functions'' \<mapsto> {''transfer''}]"]
        render_call_forms [of "''balances''" "[]"
          "[''state_vars'' \<mapsto> {''balances''}, ''functions'' \<mapsto> {''transfer''}]"]
        render_call_forms [of "''allowance''" "[''a'', ''b'']"
          "[''state_vars'' \<mapsto> {''allowance''}]"]
  by (simp add: symbols_get_def)

section \<open>Properties of the structural formatter\<close>

lemma fmt_dispatch:
  "fmt (Tree ''unary_expr'' cs) = fmt_unary fmt cs"
  "fmt (Tree ''logic_bi_expr'' cs) = fmt_logic_bi fmt cs"
  "fmt (Tree ''bi_expr'' cs) = fmt_bi fmt cs"
  "fmt (Tree ''compare_bi_expr'' cs) = fmt_bi fmt cs"
  by (simp_all add: fmt.simps(2))

lemma fmt_logic_bi_node:
  assumes "fmt l = Some (ltxt, lp)" and "fmt r = Some (rtxt, rp)"
    and "BIN_PRECEDENCE op = Some P"
  shows "fmt (Tree ''logic_bi_expr'' (l # Tree od (Token oty op # orest) # r # rest))
           = Some ((if lp < P then paren ltxt else ltxt) @ '' '' @ op @ '' ''
                     @ (if (if op = ''=>'' then rp \<le> P else rp < P) then paren rtxt else rtxt),
                   P)"
  unfolding fmt_dispatch using assms by (simp add: fmt_logic_bi_def nth_opt_def)

lemma fmt_bi_node:
  assumes "fmt l = Some (ltxt, lp)" and "fmt r = Some (rtxt, rp)"
    and "d = ''bi_expr'' \<or> d = ''compare_bi_expr''"
    and "od = ''binop'' \<or> od = ''compare_binop''"
    and "P = (case BIN_PRECEDENCE op of None \<Rightarrow> 1 | Some q \<Rightarrow> q)"
  shows "fmt (Tree d [l, Tree od (Token oty op # orest), r])
           = Some ((if lp < P then paren ltxt else ltxt) @ '' '' @ op @ '' ''
                     @ (if rp < P then paren rtxt else rtxt), P)"
proof -
  have "fmt (Tree d [l, Tree od (Token oty op # orest), r])
          = fmt_bi fmt [l, Tree od (Token oty op # orest), r]"
    using assms(3) fmt_dispatch(3,4) by blast
  also have "\<dots> = Some ((if lp < P then paren ltxt else ltxt) @ '' '' @ op @ '' ''
                     @ (if rp < P then paren rtxt else rtxt), P)"
    using assms(1,2,4,5) by (auto simp: fmt_bi_def nth_opt_def)
  finally show ?thesis .
qed

lemma fmt_unary_node:
  assumes "fmt operand = Some (t, p)"
  shows "fmt (Tree ''unary_expr'' (Tree od (Token oty op # orest) # operand # rest))
           = Some (op @ (if p < UNARY_PRECEDENCE then paren t else t), UNARY_PRECEDENCE)"
  unfolding fmt_dispatch using assms by (simp add: fmt_unary_def nth_opt_def)

lemma BIN_PRECEDENCE_values:
  "BIN_PRECEDENCE ''+'' = Some 7" "BIN_PRECEDENCE ''*'' = Some 8"
  "BIN_PRECEDENCE ''=>'' = Some 3" "BIN_PRECEDENCE ''&&'' = Some 2"
  "BIN_PRECEDENCE ''=='' = Some 5" "BIN_PRECEDENCE ''||'' = Some 1"
  by (simp_all add: BIN_PRECEDENCE_def)

lemma fmt_binary_node:
  assumes "fmt l = Some (ltxt, lp)" and "fmt r = Some (rtxt, rp)"
    and "binary_shape d od op P"
  shows "fmt (Tree d [l, Tree od (Token oty op # orest), r])
           = Some ((if lp < P then paren ltxt else ltxt) @ '' '' @ op @ '' ''
                     @ (if rp < P \<or> (rp = P \<and> d = ''logic_bi_expr'' \<and> op = ''=>'')
                        then paren rtxt else rtxt), P)"
proof (cases "d = ''logic_bi_expr''")
  case True
  with assms(3) have "BIN_PRECEDENCE op = Some P"
    by (simp add: binary_shape_def)
  from fmt_logic_bi_node [OF assms(1,2) this] True show ?thesis
    by (auto simp: le_less)
next
  case False
  with assms(3) have "d = ''bi_expr'' \<or> d = ''compare_bi_expr''"
    and "od = ''binop'' \<or> od = ''compare_binop''"
    and "P = (case BIN_PRECEDENCE op of None \<Rightarrow> 1 | Some q \<Rightarrow> q)"
    by (simp_all add: binary_shape_def)
  from fmt_bi_node [OF assms(1,2) this] False show ?thesis
    by simp
qed

lemma fmt_binary_node_prec:
  assumes "fmt (Tree d [l, Tree od (Token oty op # orest), r]) = Some (txt, p)"
    and "binary_shape d od op P"
  shows "p = P"
proof -
  have sh: "d = ''logic_bi_expr''
            \<or> (d = ''bi_expr'' \<or> d = ''compare_bi_expr'')
              \<and> (od = ''binop'' \<or> od = ''compare_binop'')"
    using assms(2) by (auto simp: binary_shape_def split: if_splits)
  obtain ltxt lp where l: "fmt l = Some (ltxt, lp)"
    using assms(1) sh
    by (cases "fmt l")
       (auto simp: fmt_dispatch fmt_logic_bi_def fmt_bi_def nth_opt_def
             split: if_splits Option.bind_splits)
  obtain rtxt rp where r: "fmt r = Some (rtxt, rp)"
    using assms(1) sh l
    by (cases "fmt r")
       (auto simp: fmt_dispatch fmt_logic_bi_def fmt_bi_def nth_opt_def
             split: if_splits Option.bind_splits)
  from fmt_binary_node [OF l r assms(2)] assms(1) show ?thesis
    by simp
qed

text \<open>
  C3, as stated, gives the right operand of every node with the implication \<^verbatim>\<open>=>\<close>
  parentheses at equal precedence. A \<^verbatim>\<open>bi_expr\<close> node compares strictly whatever its
  operator: with \<^verbatim>\<open>=>\<close> (precedence 3) and the right operand \<^verbatim>\<open>b => c\<close>, of the same
  precedence 3, the formatter writes no parentheses.
\<close>

theorem implication_in_bi_expr_without_parentheses:
  "BIN_PRECEDENCE ''=>'' = Some 3
   \<and> fmt (Tree ''bi_expr''
          [Token ''ID'' ''b'', Tree ''binop'' [Token ''IMPLIES'' ''=>''], Token ''ID'' ''c''])
     = Some (''b => c'', 3)
   \<and> fmt (Tree ''bi_expr''
          [Token ''ID'' ''a'', Tree ''binop'' [Token ''IMPLIES'' ''=>''],
           Tree ''bi_expr''
             [Token ''ID'' ''b'', Tree ''binop'' [Token ''IMPLIES'' ''=>''], Token ''ID'' ''c'']])
     = Some (''a => b => c'', 3)"
proof -
  have imp: "binary_shape ''bi_expr'' ''binop'' ''=>'' 3"
    by (simp add: binary_shape_def BIN_PRECEDENCE_values)
  have tok: "fmt (Token ''ID'' v) = Some (v, 100)" for v
    by simp
  have bc: "fmt (Tree ''bi_expr''
                   [Token ''ID'' ''b'', Tree ''binop'' [Token ''IMPLIES'' ''=>''],
                    Token ''ID'' ''c''])
              = Some (''b => c'', 3)"
    using fmt_binary_node [OF tok tok imp, of "''b''" "''IMPLIES''" "[]" "''c''"]
    by simp
  show ?thesis
    using fmt_binary_node [OF tok bc imp, of "''a''" "''IMPLIES''" "[]"] bc
    by (simp add: BIN_PRECEDENCE_values)
qed

text \<open>
  C3, amended. For every binary node with the operator \<open>op\<close> at precedence \<open>P\<close> (a
  \<^verbatim>\<open>logic_bi_expr\<close> node with \<open>op\<close> in the table; a \<^verbatim>\<open>bi_expr\<close> or \<^verbatim>\<open>compare_bi_expr\<close>
  node with a \<^verbatim>\<open>binop\<close> or \<^verbatim>\<open>compare_binop\<close> operator child, \<open>P\<close> being 1 for an operator
  outside the table), whose operands format to \<open>(ltxt, lp)\<close> and \<open>(rtxt, rp)\<close>: the left
  operand is parenthesized iff \<open>lp < P\<close>; the right operand is parenthesized iff
  \<open>rp \<le> P\<close> when the node is a \<^verbatim>\<open>logic_bi_expr\<close> and \<open>op\<close> is the implication \<^verbatim>\<open>=>\<close>, and
  iff \<open>rp < P\<close> in every other case (every other operator, and \<^verbatim>\<open>=>\<close> in a \<^verbatim>\<open>bi_expr\<close> or
  \<^verbatim>\<open>compare_bi_expr\<close> node); the node reports \<open>P\<close>.
\<close>

theorem binary_rendering_rule:
  assumes "fmt l = Some (ltxt, lp)" and "fmt r = Some (rtxt, rp)"
    and "binary_shape d od op P"
  shows "fmt (Tree d [l, Tree od (Token oty op # orest), r])
           = Some ((if lp < P then ''('' @ ltxt @ '')'' else ltxt) @ '' '' @ op @ '' ''
                     @ (if (if d = ''logic_bi_expr'' \<and> op = ''=>'' then rp \<le> P else rp < P)
                        then ''('' @ rtxt @ '')'' else rtxt), P)"
  using fmt_binary_node [OF assms(1,2,3)]
  by (auto simp: paren_def le_less)

theorem binary_rendering_rule_witness:
  "fmt (Tree ''logic_bi_expr''
          [Token ''ID'' ''a'', Tree ''logic_binop'' [Token ''IMPLIES'' ''=>''],
           Tree ''logic_bi_expr''
             [Token ''ID'' ''b'', Tree ''logic_binop'' [Token ''IMPLIES'' ''=>''],
              Token ''ID'' ''c'']])
     = Some (''a => (b => c)'', 3)
   \<and> fmt (Tree ''logic_bi_expr''
          [Tree ''logic_bi_expr''
             [Token ''ID'' ''a'', Tree ''logic_binop'' [Token ''IMPLIES'' ''=>''],
              Token ''ID'' ''b''],
           Tree ''logic_binop'' [Token ''IMPLIES'' ''=>''], Token ''ID'' ''c''])
     = Some (''a => b => c'', 3)
   \<and> fmt (Tree ''bi_expr''
          [Tree ''bi_expr''
             [Token ''ID'' ''a'', Tree ''binop'' [Token ''PLUS'' ''+''], Token ''ID'' ''b''],
           Tree ''binop'' [Token ''STAR'' ''*''], Token ''ID'' ''c''])
     = Some (''(a + b) * c'', 8)"
proof -
  have imp: "binary_shape ''logic_bi_expr'' ''logic_binop'' ''=>'' 3"
    and plus: "binary_shape ''bi_expr'' ''binop'' ''+'' 7"
    and star: "binary_shape ''bi_expr'' ''binop'' ''*'' 8"
    by (simp_all add: binary_shape_def BIN_PRECEDENCE_values)
  have tok: "fmt (Token ''ID'' v) = Some (v, 100)" for v
    by simp
  have bc: "fmt (Tree ''logic_bi_expr''
                   [Token ''ID'' ''b'', Tree ''logic_binop'' [Token ''IMPLIES'' ''=>''],
                    Token ''ID'' ''c''])
              = Some (''b => c'', 3)"
    using binary_rendering_rule [OF tok tok imp, of "''b''" "''IMPLIES''" "[]" "''c''"]
    by simp
  have ab: "fmt (Tree ''logic_bi_expr''
                   [Token ''ID'' ''a'', Tree ''logic_binop'' [Token ''IMPLIES'' ''=>''],
                    Token ''ID'' ''b''])
              = Some (''a => b'', 3)"
    using binary_rendering_rule [OF tok tok imp, of "''a''" "''IMPLIES''" "[]" "''b''"]
    by simp
  have sum: "fmt (Tree ''bi_expr''
                    [Token ''ID'' ''a'', Tree ''binop'' [Token ''PLUS'' ''+''],
                     Token ''ID'' ''b''])
               = Some (''a + b'', 7)"
    using binary_rendering_rule [OF tok tok plus, of "''a''" "''PLUS''" "[]" "''b''"]
    by simp
  show ?thesis
    using binary_rendering_rule [OF tok bc imp, of "''a''" "''IMPLIES''" "[]"]
          binary_rendering_rule [OF ab tok imp, of "''IMPLIES''" "[]" "''c''"]
          binary_rendering_rule [OF sum tok star, of "''STAR''" "[]" "''c''"]
    by simp
qed

text \<open>
  C4. A unary expression is rendered as the operator followed by the operand, the
  operand parenthesized exactly when its reported precedence is below the unary binding
  level, and reports that level. The level is the one constant \<^verbatim>\<open>UNARY_PRECEDENCE\<close>,
  which the module assigns twice, 9 and then 7; the later value, 7, is the effective one.
\<close>

theorem unary_rendering:
  assumes "fmt operand = Some (t, p)"
  shows "fmt (Tree ''unary_expr'' [Tree od (Token oty op # orest), operand])
           = Some (op @ (if p < UNARY_PRECEDENCE then ''('' @ t @ '')'' else t),
                   UNARY_PRECEDENCE)
         \<and> UNARY_PRECEDENCE_assignments = [9, 7]
         \<and> UNARY_PRECEDENCE = 7"
  using fmt_unary_node [OF assms, of od oty op orest "[]"]
  by (simp add: paren_def UNARY_PRECEDENCE_def UNARY_PRECEDENCE_assignments_def)

theorem unary_rendering_witness:
  "fmt (Tree ''unary_expr''
          [Tree ''unop'' [Token ''NOT'' ''!''],
           Tree ''compare_bi_expr''
             [Token ''ID'' ''a'', Tree ''compare_binop'' [Token ''EQ'' ''==''],
              Token ''ID'' ''b'']])
     = Some (''!(a == b)'', 7)
   \<and> fmt (Tree ''unary_expr'' [Tree ''unop'' [Token ''MINUS'' ''-''], Token ''ID'' ''x''])
     = Some (''-x'', 7)"
proof -
  have eq: "fmt (Tree ''compare_bi_expr''
                   [Token ''ID'' ''a'', Tree ''compare_binop'' [Token ''EQ'' ''==''],
                    Token ''ID'' ''b''])
              = Some (''a == b'', 5)"
    using fmt_bi_node [of "Token ''ID'' ''a''" "''a''" 100 "Token ''ID'' ''b''" "''b''" 100
            "''compare_bi_expr''" "''compare_binop''" 5 "''==''" "''EQ''" "[]"]
    by (simp add: BIN_PRECEDENCE_values)
  have tok: "fmt (Token ''ID'' ''x'') = Some (''x'', 100)"
    by simp
  show ?thesis
    using unary_rendering [OF eq, of "''unop''" "''NOT''" "''!''" "[]"]
          unary_rendering [OF tok, of "''unop''" "''MINUS''" "''-''" "[]"]
    by simp
qed

text \<open>
  C1, as stated, asks for parentheses around \<^verbatim>\<open>b OP2 c\<close> in \<^verbatim>\<open>a OP1 (b OP2 c)\<close> whenever
  \<^verbatim>\<open>OP2\<close> has the precedence of \<^verbatim>\<open>OP1\<close> or a lower one. With \<^verbatim>\<open>+\<close> for both, at the equal
  precedence 7, the formatter writes none.
\<close>

theorem equal_precedence_without_parentheses:
  "BIN_PRECEDENCE ''+'' = Some 7
   \<and> to_text (Tree ''bi_expr''
        [Token ''ID'' ''a'', Tree ''binop'' [Token ''PLUS'' ''+''],
         Tree ''bi_expr''
           [Token ''ID'' ''b'', Tree ''binop'' [Token ''PLUS'' ''+''], Token ''ID'' ''c'']])
     = Some ''a + b + c''"
proof -
  have plus: "binary_shape ''bi_expr'' ''binop'' ''+'' 7"
    by (simp add: binary_shape_def BIN_PRECEDENCE_values)
  have tok: "fmt (Token ''ID'' v) = Some (v, 100)" for v
    by simp
  have bc: "fmt (Tree ''bi_expr''
                   [Token ''ID'' ''b'', Tree ''binop'' [Token ''PLUS'' ''+''],
                    Token ''ID'' ''c''])
              = Some (''b + c'', 7)"
    using fmt_binary_node [OF tok tok plus, of "''b''" "''PLUS''" "[]" "''c''"]
    by simp
  show ?thesis
    using fmt_binary_node [OF tok bc plus, of "''a''" "''PLUS''" "[]"]
    by (simp add: to_text_def BIN_PRECEDENCE_values)
qed

text \<open>
  C1, amended. In \<^verbatim>\<open>a OP1 (b OP2 c)\<close>, a binary node whose right operand is the binary
  node \<^verbatim>\<open>b OP2 c\<close> with the rendering \<open>ti\<close>: the right operand reports the precedence
  \<open>P2\<close> of \<^verbatim>\<open>OP2\<close>; when \<open>P2\<close> is above the precedence \<open>P1\<close> of \<^verbatim>\<open>OP1\<close> the output has
  \<open>ti\<close> without parentheses, when it is below the output has \<open>(ti)\<close>, and at equal
  precedence the output has \<open>(ti)\<close> exactly when the outer node is a \<^verbatim>\<open>logic_bi_expr\<close>
  with the operator \<^verbatim>\<open>=>\<close>.
\<close>

theorem nested_binary_parentheses:
  assumes "fmt a = Some (ta, pa)"
    and "fmt (Tree d2 [b, Tree od2 (Token ty2 op2 # rest2), c]) = Some (ti, pi)"
    and "binary_shape d1 od1 op1 P1"
    and "binary_shape d2 od2 op2 P2"
  shows "pi = P2
         \<and> fmt (Tree d1 [a, Tree od1 (Token ty1 op1 # rest1),
                         Tree d2 [b, Tree od2 (Token ty2 op2 # rest2), c]])
           = Some ((if pa < P1 then ''('' @ ta @ '')'' else ta) @ '' '' @ op1 @ '' ''
                     @ (if P1 < P2 then ti
                        else if P2 < P1 then ''('' @ ti @ '')''
                        else if d1 = ''logic_bi_expr'' \<and> op1 = ''=>'' then ''('' @ ti @ '')''
                        else ti), P1)"
proof -
  have p: "pi = P2"
    using assms(2,4) by (rule fmt_binary_node_prec)
  from fmt_binary_node [OF assms(1) assms(2) assms(3)] p show ?thesis
    by (auto simp: paren_def)
qed

theorem nested_binary_parentheses_witness:
  "fmt (Tree ''bi_expr''
          [Token ''ID'' ''a'', Tree ''binop'' [Token ''PLUS'' ''+''],
           Tree ''bi_expr''
             [Token ''ID'' ''b'', Tree ''binop'' [Token ''STAR'' ''*''], Token ''ID'' ''c'']])
     = Some (''a + b * c'', 7)
   \<and> fmt (Tree ''bi_expr''
          [Token ''ID'' ''a'', Tree ''binop'' [Token ''STAR'' ''*''],
           Tree ''bi_expr''
             [Token ''ID'' ''b'', Tree ''binop'' [Token ''PLUS'' ''+''], Token ''ID'' ''c'']])
     = Some (''a * (b + c)'', 8)
   \<and> fmt (Tree ''logic_bi_expr''
          [Token ''ID'' ''a'', Tree ''logic_binop'' [Token ''IMPLIES'' ''=>''],
           Tree ''logic_bi_expr''
             [Token ''ID'' ''b'', Tree ''logic_binop'' [Token ''IMPLIES'' ''=>''],
              Token ''ID'' ''c'']])
     = Some (''a => (b => c)'', 3)
   \<and> fmt (Tree ''bi_expr''
          [Token ''ID'' ''a'', Tree ''binop'' [Token ''MINUS'' ''-''],
           Tree ''bi_expr''
             [Token ''ID'' ''b'', Tree ''binop'' [Token ''MINUS'' ''-''], Token ''ID'' ''c'']])
     = Some (''a - b - c'', 7)"
proof -
  have imp: "binary_shape ''logic_bi_expr'' ''logic_binop'' ''=>'' 3"
    and plus: "binary_shape ''bi_expr'' ''binop'' ''+'' 7"
    and minus: "binary_shape ''bi_expr'' ''binop'' ''-'' 7"
    and star: "binary_shape ''bi_expr'' ''binop'' ''*'' 8"
    by (simp_all add: binary_shape_def BIN_PRECEDENCE_def)
  have tok: "fmt (Token ''ID'' v) = Some (v, 100)" for v
    by simp
  have i1: "fmt (Tree ''bi_expr''
                   [Token ''ID'' ''b'', Tree ''binop'' [Token ''STAR'' ''*''], Token ''ID'' ''c''])
              = Some (''b * c'', 8)"
    using fmt_binary_node [OF tok tok star, of "''b''" "''STAR''" "[]" "''c''"] by simp
  have i2: "fmt (Tree ''bi_expr''
                   [Token ''ID'' ''b'', Tree ''binop'' [Token ''PLUS'' ''+''], Token ''ID'' ''c''])
              = Some (''b + c'', 7)"
    using fmt_binary_node [OF tok tok plus, of "''b''" "''PLUS''" "[]" "''c''"] by simp
  have i3: "fmt (Tree ''logic_bi_expr''
                   [Token ''ID'' ''b'', Tree ''logic_binop'' [Token ''IMPLIES'' ''=>''],
                    Token ''ID'' ''c''])
              = Some (''b => c'', 3)"
    using fmt_binary_node [OF tok tok imp, of "''b''" "''IMPLIES''" "[]" "''c''"] by simp
  have i4: "fmt (Tree ''bi_expr''
                   [Token ''ID'' ''b'', Tree ''binop'' [Token ''MINUS'' ''-''], Token ''ID'' ''c''])
              = Some (''b - c'', 7)"
    using fmt_binary_node [OF tok tok minus, of "''b''" "''MINUS''" "[]" "''c''"] by simp
  show ?thesis
    using nested_binary_parentheses [OF tok i1 plus star, of "''a''" "''PLUS''" "[]"]
          nested_binary_parentheses [OF tok i2 star plus, of "''a''" "''STAR''" "[]"]
          nested_binary_parentheses [OF tok i3 imp imp, of "''a''" "''IMPLIES''" "[]"]
          nested_binary_parentheses [OF tok i4 minus minus, of "''a''" "''MINUS''" "[]"]
    by simp
qed

section \<open>Properties of the call-argument splitter\<close>

lemma comma_pieces_nonempty [simp]: "comma_pieces nodes \<noteq> []"
  by (cases nodes) auto

lemma comma_split_pieces:
  "comma_split render nodes cur args
     = args @ map render (filter (\<lambda>run. run \<noteq> [])
                 ((cur @ hd (comma_pieces nodes)) # tl (comma_pieces nodes)))"
proof (induction nodes arbitrary: cur args)
  case Nil
  then show ?case by simp
next
  case (Cons ch rest)
  show ?case
  proof (cases "is_comma ch")
    case True
    then show ?thesis
      using Cons.IH [of "[]" "args @ [render cur]"] Cons.IH [of "[]" args]
      by (cases "comma_pieces rest") auto
  next
    case False
    then show ?thesis
      using Cons.IH [of "cur @ [ch]" args] by simp
  qed
qed

lemma comma_split_runs:
  "comma_split render nodes [] [] = map render (comma_runs nodes)"
  using comma_split_pieces [of render nodes "[]" "[]"]
  by (cases "comma_pieces nodes") (auto simp: comma_runs_def)

lemma comma_pieces_no_comma:
  "\<not> list_ex is_comma nodes \<Longrightarrow> comma_pieces nodes = [nodes]"
  by (induction nodes) auto

lemma comma_runs_no_comma:
  "\<not> list_ex is_comma nodes \<Longrightarrow> comma_runs nodes = (if nodes = [] then [] else [nodes])"
  by (simp add: comma_runs_def comma_pieces_no_comma)

lemma concat_comma_pieces:
  "concat (comma_pieces nodes) = filter (\<lambda>ch. \<not> is_comma ch) nodes"
proof (induction nodes)
  case Nil
  then show ?case by simp
next
  case (Cons ch rest)
  then show ?case
    by (cases "comma_pieces rest") auto
qed

lemma concat_comma_runs:
  "concat (comma_runs nodes) = filter (\<lambda>ch. \<not> is_comma ch) nodes"
proof -
  have "concat (filter (\<lambda>run. run \<noteq> []) xss) = concat xss" for xss :: "node list list"
    by (induction xss) auto
  then show ?thesis
    by (simp add: comma_runs_def concat_comma_pieces)
qed

lemma strip_flatten_list [simp]:
  "str_strip (flatten_expr_with_symbols_list nodes syms)
     = flatten_expr_with_symbols_list nodes syms"
  by (simp add: flatten_expr_with_symbols_list_def flatten_list_with_def str_strip_idem)

lemma filter_is_token_id: "\<not> list_ex is_tree cs \<Longrightarrow> filter is_token cs = cs"
proof (induction cs)
  case Nil
  then show ?case by simp
next
  case (Cons c cs)
  then show ?case by (cases c) auto
qed

lemma split_call_args_cases:
  "split_call_args (Some (Tree d cs)) syms =
     (if list_ex is_tree cs then [flatten_expr_with_symbols_list cs syms]
      else if list_ex is_comma cs
      then map (\<lambda>run. flatten_expr_with_symbols_list run syms) (comma_runs cs)
      else if list_all is_atom_token cs then map token_value cs
      else [flatten_expr_with_symbols_list cs syms])"
proof (cases "list_ex is_tree cs")
  case True
  then show ?thesis by (simp add: split_call_args_def)
next
  case False
  then have toks: "filter is_token cs = cs"
    by (rule filter_is_token_id)
  show ?thesis
  proof (cases "cs = []")
    case True
    then show ?thesis by (simp add: split_call_args_def)
  next
    case ne: False
    have "map str_strip (map (\<lambda>run. flatten_expr_with_symbols_list run syms) (comma_runs cs))
            = map (\<lambda>run. flatten_expr_with_symbols_list run syms) (comma_runs cs)"
      by simp
    with False ne toks show ?thesis
      by (simp add: split_call_args_def comma_split_runs Let_def)
  qed
qed

lemma flatten_list_single_clean:
  "\<forall>c\<in>set v. \<not> is_space c \<Longrightarrow> flatten_expr_with_symbols_list [Token ty v] syms = v"
proof -
  assume clean: "\<forall>c\<in>set v. \<not> is_space c"
  then have "CHR '' '' \<notin> set v"
    by (auto simp: is_space_def)
  with clean show ?thesis
    by (simp add: flatten_expr_with_symbols_list_def flatten_list_with_def
                  fixups_clean str_strip_clean)
qed

lemma flatten_list_single:
  "flatten_expr_with_symbols_list [Token ty v] syms = str_strip (fixups v)"
  by (simp add: flatten_expr_with_symbols_list_def flatten_list_with_def)

lemma split_three_tokens:
  assumes "va \<noteq> '',''" and "vb \<noteq> '',''" and "vc \<noteq> '',''"
  shows "split_call_args
           (Some (Tree d [Token ta va, Token k1 '','', Token tb vb, Token k2 '','', Token tc vc]))
           syms
         = [str_strip (fixups va), str_strip (fixups vb), str_strip (fixups vc)]"
proof -
  from assms have "comma_runs [Token ta va, Token k1 '','', Token tb vb, Token k2 '','',
                               Token tc vc]
                     = [[Token ta va], [Token tb vb], [Token tc vc]]"
    by (simp add: comma_runs_def)
  with assms show ?thesis
    by (simp add: split_call_args_cases flatten_list_single)
qed

text \<open>
  C6, as stated, returns for a comma-delimited list of atomic tokens the token texts
  themselves. Each run between commas goes through the fix-ups and the strip of the
  renderer: the string literal \<^verbatim>\<open>"x , y"\<close> comes back as \<^verbatim>\<open>"x, y"\<close>.
\<close>

theorem split_changes_token_text:
  "list_all is_atom_token
     [Token ''STRING_LITERAL'' (CHR 0x22 # ''x , y'' @ [CHR 0x22]), Token ''ID'' ''b'',
      Token ''ID'' ''c'']
   \<and> split_call_args
       (Some (Tree ''exprs''
          [Token ''STRING_LITERAL'' (CHR 0x22 # ''x , y'' @ [CHR 0x22]), Token ''COMMA'' '','',
           Token ''ID'' ''b'', Token ''COMMA'' '','', Token ''ID'' ''c'']))
       Map.empty
     = [CHR 0x22 # ''x, y'' @ [CHR 0x22], ''b'', ''c'']"
  by code_simp

text \<open>
  C6, amended. The splitter follows the four steps in order: with an Interior child the
  whole content is one argument; otherwise with a comma Leaf each run of Leaves between
  commas is one argument; otherwise, when every Leaf is atomic, each Leaf is its own
  argument; otherwise the whole run is one argument. For three tokens separated by
  commas, such as \<^verbatim>\<open>a, b, c\<close> (none of them a comma itself), it returns exactly three
  arguments, each the text of the corresponding token after the fix-ups and the strip of
  the renderer: the token text itself when it has no whitespace.
\<close>

theorem split_call_args_priority:
  "split_call_args (Some (Tree d cs)) syms =
     (if list_ex is_tree cs then [flatten_expr_with_symbols_list cs syms]
      else if list_ex is_comma cs
      then map (\<lambda>run. flatten_expr_with_symbols_list run syms) (comma_runs cs)
      else if list_all is_atom_token cs then map token_value cs
      else [flatten_expr_with_symbols_list cs syms])
   \<and> (va \<noteq> '','' \<and> vb \<noteq> '','' \<and> vc \<noteq> '','' \<longrightarrow>
      split_call_args
        (Some (Tree d [Token ta va, Token k1 '','', Token tb vb, Token k2 '','', Token tc vc]))
        syms = [str_strip (fixups va), str_strip (fixups vb), str_strip (fixups vc)])
   \<and> ((\<forall>c \<in> set va \<union> set vb \<union> set vc. \<not> is_space c)
        \<and> va \<noteq> '','' \<and> vb \<noteq> '','' \<and> vc \<noteq> '','' \<longrightarrow>
      split_call_args
        (Some (Tree d [Token ta va, Token k1 '','', Token tb vb, Token k2 '','', Token tc vc]))
        syms = [va, vb, vc])"
proof (intro conjI impI)
  show "split_call_args (Some (Tree d cs)) syms =
     (if list_ex is_tree cs then [flatten_expr_with_symbols_list cs syms]
      else if list_ex is_comma cs
      then map (\<lambda>run. flatten_expr_with_symbols_list run syms) (comma_runs cs)
      else if list_all is_atom_token cs then map token_value cs
      else [flatten_expr_with_symbols_list cs syms])"
    by (rule split_call_args_cases)
next
  assume "va \<noteq> '','' \<and> vb \<noteq> '','' \<and> vc \<noteq> '',''"
  then show "split_call_args
        (Some (Tree d [Token ta va, Token k1 '','', Token tb vb, Token k2 '','', Token tc vc]))
        syms = [str_strip (fixups va), str_strip (fixups vb), str_strip (fixups vc)]"
    by (simp add: split_three_tokens)
next
  assume h: "(\<forall>c \<in> set va \<union> set vb \<union> set vc. \<not> is_space c)
        \<and> va \<noteq> '','' \<and> vb \<noteq> '','' \<and> vc \<noteq> '',''"
  then have sp: "CHR '' '' \<notin> set va" "CHR '' '' \<notin> set vb" "CHR '' '' \<notin> set vc"
    by (auto simp: is_space_def)
  from h have "str_strip (fixups va) = va" "str_strip (fixups vb) = vb"
    "str_strip (fixups vc) = vc"
    by (simp_all add: fixups_clean sp str_strip_clean)
  with h show "split_call_args
        (Some (Tree d [Token ta va, Token k1 '','', Token tb vb, Token k2 '','', Token tc vc]))
        syms = [va, vb, vc]"
    by (simp add: split_three_tokens)
qed

theorem split_call_args_priority_witness:
  "split_call_args
     (Some (Tree ''exprs'' [Token ''ID'' ''a'', Token ''COMMA'' '','', Token ''ID'' ''b'',
                            Token ''COMMA'' '','', Token ''ID'' ''c'']))
     Map.empty = [''a'', ''b'', ''c'']
   \<and> split_call_args
       (Some (Tree ''exprs'' [Token ''ID'' ''a'', Token ''COMMA'' '','', Token ''ID'' ''b'',
                              Token ''COMMA'' '','', Token ''ID'' ''c'']))
       Map.empty = [str_strip (fixups ''a''), str_strip (fixups ''b''), str_strip (fixups ''c'')]
   \<and> split_call_args (Some (Tree ''exprs'' [Token ''ID'' ''a'', Token ''INTEGER_LITERAL'' ''1'']))
       Map.empty = [''a'', ''1'']"
proof -
  have clean: "\<forall>c \<in> set ''a'' \<union> set ''b'' \<union> set ''c''. \<not> is_space c"
    by (simp add: is_space_def)
  have atoms: "list_all is_atom_token [Token ''ID'' ''a'', Token ''INTEGER_LITERAL'' ''1'']"
    by (simp add: ATOM_TOKEN_TYPES_def)
  note t = split_call_args_priority
         [of "''exprs''" "[Token ''ID'' ''a'', Token ''INTEGER_LITERAL'' ''1'']" Map.empty
             "''a''" "''b''" "''c''" "''ID''" "''COMMA''" "''ID''" "''COMMA''" "''ID''"]
  from t [THEN conjunct1] atoms
  have a: "split_call_args
             (Some (Tree ''exprs'' [Token ''ID'' ''a'', Token ''INTEGER_LITERAL'' ''1'']))
             Map.empty = [''a'', ''1'']"
    by simp
  from t [THEN conjunct2, THEN conjunct1]
  have b: "split_call_args
       (Some (Tree ''exprs'' [Token ''ID'' ''a'', Token ''COMMA'' '','', Token ''ID'' ''b'',
                              Token ''COMMA'' '','', Token ''ID'' ''c'']))
       Map.empty = [str_strip (fixups ''a''), str_strip (fixups ''b''), str_strip (fixups ''c'')]"
    by simp
  from t [THEN conjunct2, THEN conjunct2] clean
  have c: "split_call_args
     (Some (Tree ''exprs'' [Token ''ID'' ''a'', Token ''COMMA'' '','', Token ''ID'' ''b'',
                            Token ''COMMA'' '','', Token ''ID'' ''c'']))
     Map.empty = [''a'', ''b'', ''c'']"
    by simp
  from a b c show ?thesis
    by simp
qed

section \<open>Leaf coverage of the splitter\<close>

lemma leaf_texts_scan_values:
  "is_tree n \<Longrightarrow> leaf_texts n = map token_value (scan_values is_token n)"
proof (induction n)
  case (Token ty v)
  then show ?case by simp
next
  case (Tree d cs)
  have "leaf_texts c = map token_value (if is_tree c then scan_values is_token c
                                         else if is_token c then [c] else [])"
    if "c \<in> set cs" for c
  proof (cases c)
    case (Token ty v)
    then show ?thesis by simp
  next
    case (Tree d' cs')
    with Tree.IH [OF that] show ?thesis by simp
  qed
  then show ?case
    by (simp add: map_concat cong: map_cong)
qed

lemma visible_flatten_list_with:
  "visible (flatten_list_with f nodes) = concat (map (\<lambda>n. visible (f n)) nodes)"
  by (simp add: flatten_list_with_def visible_join_space comp_def)

lemma concat_map_visible_concat:
  "concat (map visible (concat xss)) = concat (map (\<lambda>xs. concat (map visible xs)) xss)"
  by (induction xss) auto

lemma visible_flatten:
  "call_free n \<Longrightarrow>
     visible (flatten_expr_with_symbols n syms) = concat (map visible (leaf_texts n))"
proof (induction n)
  case (Token ty v)
  then show ?case by simp
next
  case (Tree d cs)
  from Tree.prems have lbl: "d \<noteq> ''function_call''" "d \<noteq> ''special_var_attribute_call''"
    "d \<noteq> ''contract_attribute_call''" and free: "list_all call_free cs"
    by simp_all
  have "visible (flatten_expr_with_symbols c syms) = concat (map visible (leaf_texts c))"
    if "c \<in> set cs" for c
    using Tree.IH [OF that] free that by (simp add: list_all_iff)
  then have "concat (map (\<lambda>c. visible (flatten_expr_with_symbols c syms)) cs)
               = concat (map (\<lambda>c. concat (map visible (leaf_texts c))) cs)"
    by (simp cong: map_cong)
  with lbl show ?case
    by (simp add: flatten_expr_with_symbols.simps(2) visible_flatten_list_with
                  concat_map_visible_concat comp_def)
qed

lemma visible_flatten_list:
  "list_all call_free nodes \<Longrightarrow>
     visible (flatten_expr_with_symbols_list nodes syms)
       = concat (map visible (concat (map leaf_texts nodes)))"
proof -
  assume "list_all call_free nodes"
  then have "concat (map (\<lambda>c. visible (flatten_expr_with_symbols c syms)) nodes)
               = concat (map (\<lambda>c. concat (map visible (leaf_texts c))) nodes)"
    by (simp add: list_all_iff visible_flatten cong: map_cong)
  then show ?thesis
    by (simp add: flatten_expr_with_symbols_list_def visible_flatten_list_with
                  concat_map_visible_concat comp_def)
qed

lemma comma_runs_subset: "run \<in> set (comma_runs nodes) \<Longrightarrow> set run \<subseteq> set nodes"
proof -
  assume "run \<in> set (comma_runs nodes)"
  then have "set run \<subseteq> set (concat (comma_runs nodes))"
    by auto
  then show ?thesis
    by (auto simp: concat_comma_runs)
qed

lemma leaf_texts_tokens:
  "\<not> list_ex is_tree cs \<Longrightarrow> concat (map leaf_texts cs) = map token_value cs"
proof (induction cs)
  case Nil
  then show ?case by simp
next
  case (Cons c cs)
  then show ?case by (cases c) auto
qed

lemma concat_runs_texts:
  "concat (map (\<lambda>run. concat (map visible (concat (map leaf_texts run)))) runs)
     = concat (map visible (concat (map leaf_texts (concat runs))))"
  by (induction runs) auto















section \<open>Arguments of a rendered call\<close>

lemma flatten_list_with_eq:
  "flatten_list_with (\<lambda>n. flatten_expr_with_symbols n syms)
     = (\<lambda>cur. flatten_expr_with_symbols_list cur syms)"
  by (rule ext) (simp add: flatten_expr_with_symbols_list_def)

lemma flatten_function_call:
  "callee_name cs = Some fname \<Longrightarrow>
     flatten_expr_with_symbols (Tree ''function_call'' cs) syms
       = render_call fname (call_args cs syms) syms"
  by (simp add: flatten_expr_with_symbols.simps(2) call_args_def flatten_list_with_eq
           split: option.splits)

lemma call_args_runs:
  "call_args cs syms =
     (case find (is_tree_of ''exprs'') cs of
        None \<Rightarrow> []
      | Some e \<Rightarrow> map (\<lambda>run. flatten_expr_with_symbols_list run syms) (comma_runs (children e)))"
  by (simp add: call_args_def comma_split_runs split: option.splits)

lemma length_with_commas:
  assumes "\<And>c. is_comma c \<Longrightarrow> length (g c) = 1"
  shows "length (concat (map g ks))
           = length (concat (map g (filter (\<lambda>c. \<not> is_comma c) ks)))
             + length (filter is_comma ks)"
  by (induction ks) (simp_all add: assms)

lemma visible_comma: "is_comma c \<Longrightarrow> length (visible (flatten_expr_with_symbols c syms)) = 1"
  by (cases c) (simp_all add: visible_def is_space_def)

lemma comma_runs_split_differ:
  assumes "list_ex is_tree ks" and "list_ex is_comma ks"
  shows "map (\<lambda>run. flatten_expr_with_symbols_list run syms) (comma_runs ks)
           \<noteq> [flatten_expr_with_symbols_list ks syms]"
proof
  assume eq: "map (\<lambda>run. flatten_expr_with_symbols_list run syms) (comma_runs ks)
                = [flatten_expr_with_symbols_list ks syms]"
  then obtain run where runs: "comma_runs ks = [run]"
    and same: "flatten_expr_with_symbols_list run syms = flatten_expr_with_symbols_list ks syms"
    by (cases "comma_runs ks") auto
  from runs have "concat (comma_runs ks) = run"
    by simp
  then have run: "run = filter (\<lambda>c. \<not> is_comma c) ks"
    by (simp add: concat_comma_runs)
  let ?g = "\<lambda>n. visible (flatten_expr_with_symbols n syms)"
  from same have "visible (flatten_expr_with_symbols_list run syms)
                    = visible (flatten_expr_with_symbols_list ks syms)"
    by simp
  then have "concat (map ?g run) = concat (map ?g ks)"
    by (simp add: flatten_expr_with_symbols_list_def visible_flatten_list_with)
  then have "length (concat (map ?g (filter (\<lambda>c. \<not> is_comma c) ks)))
               = length (concat (map ?g ks))"
    by (simp add: run)
  moreover have "length (concat (map ?g ks))
                   = length (concat (map ?g (filter (\<lambda>c. \<not> is_comma c) ks)))
                     + length (filter is_comma ks)"
    by (rule length_with_commas) (rule visible_comma)
  moreover from assms(2) have "filter is_comma ks \<noteq> []"
    by (auto simp: list_ex_iff filter_empty_conv)
  ultimately show False
    by simp
qed

lemma single_stable_atom_iff:
  "single_stable_atom ks \<longleftrightarrow>
     (\<exists>ty v. ks = [Token ty v] \<and> ty \<in> ATOM_TOKEN_TYPES \<and> str_strip (fixups v) = v)"
  by (cases ks rule: single_stable_atom.cases) auto

lemma call_args_split_agree:
  assumes "find (is_tree_of ''exprs'') cs = Some e"
  shows "call_args cs syms = split_call_args (Some e) syms \<longleftrightarrow> same_split (children e)"
proof -
  from assms have "is_tree_of ''exprs'' e"
    by (auto simp: find_Some_iff)
  then obtain ks where e: "e = Tree ''exprs'' ks"
    by (cases e) auto
  let ?A = "map (\<lambda>run. flatten_expr_with_symbols_list run syms) (comma_runs ks)"
  let ?B = "split_call_args (Some (Tree ''exprs'' ks)) syms"
  have "?A = ?B \<longleftrightarrow> same_split ks"
  proof (cases "list_ex is_tree ks")
    case tree: True
    then have ne: "ks \<noteq> []"
      by auto
    have single: "\<not> single_stable_atom ks"
      using tree by (auto simp: single_stable_atom_iff)
    show ?thesis
    proof (cases "list_ex is_comma ks")
      case True
      with tree comma_runs_split_differ [OF tree True, of syms] ne single show ?thesis
        by (simp add: same_split_def split_call_args_cases)
    next
      case False
      with tree ne show ?thesis
        by (simp add: same_split_def split_call_args_cases comma_runs_no_comma)
    qed
  next
    case no_tree: False
    show ?thesis
    proof (cases "list_ex is_comma ks")
      case True
      with no_tree show ?thesis
        by (simp add: same_split_def split_call_args_cases)
    next
      case no_comma: False
      show ?thesis
      proof (cases "ks = []")
        case True
        then show ?thesis
          by (simp add: same_split_def split_call_args_cases comma_runs_def)
      next
        case ne: False
        show ?thesis
        proof (cases "list_all is_atom_token ks")
          case False
          with no_tree no_comma ne show ?thesis
            by (simp add: same_split_def split_call_args_cases comma_runs_no_comma)
        next
          case atoms: True
          have "[flatten_expr_with_symbols_list ks syms] = map token_value ks
                  \<longleftrightarrow> single_stable_atom ks"
          proof
            assume eq: "[flatten_expr_with_symbols_list ks syms] = map token_value ks"
            then have "length ks = 1"
              by (metis length_map length_Cons list.size(3) One_nat_def)
            then obtain c where c: "ks = [c]"
              by (cases ks) auto
            with atoms obtain ty v where tv: "c = Token ty v" "ty \<in> ATOM_TOKEN_TYPES"
              by (cases c) auto
            with eq c have "str_strip (fixups v) = v"
              by (simp add: flatten_list_single)
            with c tv show "single_stable_atom ks"
              by simp
          next
            assume "single_stable_atom ks"
            then obtain ty v where "ks = [Token ty v]" "str_strip (fixups v) = v"
              by (auto simp: single_stable_atom_iff)
            then show "[flatten_expr_with_symbols_list ks syms] = map token_value ks"
              by (simp add: flatten_list_single)
          qed
          with no_tree no_comma ne atoms show ?thesis
            by (simp add: same_split_def split_call_args_cases comma_runs_no_comma)
        qed
      qed
    qed
  qed
  then show ?thesis
    unfolding call_args_runs assms e by simp
qed

text \<open>
  C2, as stated, fails: for \<^verbatim>\<open>f\<close> applied to an argument list of two atomic Leaves and
  no comma, the renderer gives \<^verbatim>\<open>_render_call\<close> the one argument \<^verbatim>\<open>a b\<close>, whereas the
  splitter returns the two arguments \<^verbatim>\<open>a\<close> and \<^verbatim>\<open>b\<close>; and for an argument list with an
  Interior child and a comma the renderer gives two arguments, whereas the splitter
  returns the single argument \<^verbatim>\<open>x, y\<close>.
\<close>

theorem renderer_arguments_differ_from_splitter:
  "call_args [Token ''ID'' ''f'', Tree ''exprs'' [Token ''ID'' ''a'', Token ''ID'' ''b'']]
     Map.empty = [''a b'']
   \<and> split_call_args (Some (Tree ''exprs'' [Token ''ID'' ''a'', Token ''ID'' ''b'']))
       Map.empty = [''a'', ''b'']
   \<and> flatten_expr_with_symbols
       (Tree ''function_call''
          [Token ''ID'' ''f'', Tree ''exprs'' [Token ''ID'' ''a'', Token ''ID'' ''b'']])
       Map.empty = ''f(a b)''
   \<and> render_call ''f'' [''a'', ''b''] Map.empty = ''f(a, b)''
   \<and> call_args
       [Token ''ID'' ''balances'',
        Tree ''exprs'' [Tree ''expr'' [Token ''ID'' ''x''], Token ''COMMA'' '','',
                        Token ''ID'' ''y'']]
       [''state_vars'' \<mapsto> {''balances''}] = [''x'', ''y'']
   \<and> split_call_args
       (Some (Tree ''exprs'' [Tree ''expr'' [Token ''ID'' ''x''], Token ''COMMA'' '','',
                              Token ''ID'' ''y'']))
       [''state_vars'' \<mapsto> {''balances''}] = [''x, y'']"
  by code_simp

text \<open>
  C2, amended. For a \<^verbatim>\<open>function_call\<close> node with a callee name, the renderer gives
  \<^verbatim>\<open>_render_call\<close> the list obtained by cutting the direct children of the \<^verbatim>\<open>exprs\<close>
  child at the literal commas and rendering each non-empty run, Leaves and Interior nodes
  alike, symbol-aware as one argument (no argument without an \<^verbatim>\<open>exprs\<close> child). This is
  the output of the splitter on that \<^verbatim>\<open>exprs\<close> child when there is none, and otherwise
  exactly when its children have one of the shapes of \<open>same_split\<close>: no child; only
  Leaves, one a comma; no comma and an Interior child or a non-atomic Leaf; a single
  atomic Leaf whose text the fix-ups and the strip leave as it is.
\<close>

theorem function_call_arguments:
  assumes "callee_name cs = Some fname"
  shows "flatten_expr_with_symbols (Tree ''function_call'' cs) syms
           = render_call fname (call_args cs syms) syms
         \<and> call_args cs syms =
             (case find (is_tree_of ''exprs'') cs of
                None \<Rightarrow> []
              | Some e \<Rightarrow> map (\<lambda>run. flatten_expr_with_symbols_list run syms)
                              (comma_runs (children e)))
         \<and> (case find (is_tree_of ''exprs'') cs of
              None \<Rightarrow> call_args cs syms = split_call_args None syms
            | Some e \<Rightarrow> (call_args cs syms = split_call_args (Some e) syms)
                         = same_split (children e))"
proof (intro conjI)
  show "flatten_expr_with_symbols (Tree ''function_call'' cs) syms
          = render_call fname (call_args cs syms) syms"
    using assms by (rule flatten_function_call)
  show "call_args cs syms =
          (case find (is_tree_of ''exprs'') cs of
             None \<Rightarrow> []
           | Some e \<Rightarrow> map (\<lambda>run. flatten_expr_with_symbols_list run syms)
                           (comma_runs (children e)))"
    by (rule call_args_runs)
  show "case find (is_tree_of ''exprs'') cs of
          None \<Rightarrow> call_args cs syms = split_call_args None syms
        | Some e \<Rightarrow> (call_args cs syms = split_call_args (Some e) syms)
                     = same_split (children e)"
  proof (cases "find (is_tree_of ''exprs'') cs")
    case None
    then show ?thesis
      by (simp add: call_args_def split_call_args_def)
  next
    case (Some e)
    then show ?thesis
      by (simp add: call_args_split_agree)
  qed
qed

theorem function_call_arguments_witness:
  "callee_name [Token ''ID'' ''balances'', Tree ''exprs'' [Token ''ID'' ''addr'']]
     = Some ''balances''
   \<and> flatten_expr_with_symbols
       (Tree ''function_call'' [Token ''ID'' ''balances'', Tree ''exprs'' [Token ''ID'' ''addr'']])
       [''state_vars'' \<mapsto> {''balances''}, ''functions'' \<mapsto> {''transfer''}]
     = ''balances[addr]''
   \<and> same_split [Token ''ID'' ''addr'']
   \<and> split_call_args (Some (Tree ''exprs'' [Token ''ID'' ''addr'']))
       [''state_vars'' \<mapsto> {''balances''}, ''functions'' \<mapsto> {''transfer''}]
     = [''addr'']
   \<and> flatten_expr_with_symbols
       (Tree ''function_call''
          [Token ''ID'' ''transfer'',
           Tree ''exprs'' [Token ''ID'' ''addr'', Token ''COMMA'' '','',
                           Token ''INTEGER_LITERAL'' ''100'']])
       [''state_vars'' \<mapsto> {''balances''}, ''functions'' \<mapsto> {''transfer''}]
     = ''transfer(addr, 100)''
   \<and> same_split [Token ''ID'' ''addr'', Token ''COMMA'' '','', Token ''INTEGER_LITERAL'' ''100'']
   \<and> split_call_args
       (Some (Tree ''exprs'' [Token ''ID'' ''addr'', Token ''COMMA'' '','',
                              Token ''INTEGER_LITERAL'' ''100'']))
       [''state_vars'' \<mapsto> {''balances''}, ''functions'' \<mapsto> {''transfer''}]
     = [''addr'', ''100'']"
proof -
  have n1: "callee_name [Token ''ID'' ''balances'', Tree ''exprs'' [Token ''ID'' ''addr'']]
              = Some ''balances''"
    by (simp add: callee_name_def)
  have n2: "callee_name [Token ''ID'' ''transfer'',
                         Tree ''exprs'' [Token ''ID'' ''addr'', Token ''COMMA'' '','',
                                         Token ''INTEGER_LITERAL'' ''100'']]
              = Some ''transfer''"
    by (simp add: callee_name_def)
  have clean: "\<forall>c\<in>set ''addr''. \<not> is_space c" "\<forall>c\<in>set ''100''. \<not> is_space c"
    by (simp_all add: is_space_def)
  have stable: "str_strip (fixups ''addr'') = ''addr''"
    by (simp add: fixups_clean str_strip_clean is_space_def)
  have runs: "comma_runs [Token ''ID'' ''addr''] = [[Token ''ID'' ''addr'']]"
    "comma_runs [Token ''ID'' ''addr'', Token ''COMMA'' '','', Token ''INTEGER_LITERAL'' ''100'']
       = [[Token ''ID'' ''addr''], [Token ''INTEGER_LITERAL'' ''100'']]"
    by (simp_all add: comma_runs_def)
  have same1: "same_split [Token ''ID'' ''addr'']"
    by (simp add: same_split_def ATOM_TOKEN_TYPES_def stable)
  have same2: "same_split [Token ''ID'' ''addr'', Token ''COMMA'' '','',
                           Token ''INTEGER_LITERAL'' ''100'']"
    by (simp add: same_split_def)
  let ?syms = "[''state_vars'' \<mapsto> {''balances''}, ''functions'' \<mapsto> {''transfer''}]"
  note t1 = function_call_arguments [OF n1, of ?syms]
  note t2 = function_call_arguments [OF n2, of ?syms]
  from t1 have a1: "call_args [Token ''ID'' ''balances'', Tree ''exprs'' [Token ''ID'' ''addr'']]
                      ?syms = [''addr'']"
    by (simp add: runs flatten_list_single_clean clean)
  from t2 have a2: "call_args [Token ''ID'' ''transfer'',
                               Tree ''exprs'' [Token ''ID'' ''addr'', Token ''COMMA'' '','',
                                               Token ''INTEGER_LITERAL'' ''100'']]
                      ?syms = [''addr'', ''100'']"
    by (simp add: runs flatten_list_single_clean clean)
  from t1 a1 have r1: "flatten_expr_with_symbols
       (Tree ''function_call'' [Token ''ID'' ''balances'', Tree ''exprs'' [Token ''ID'' ''addr'']])
       ?syms = ''balances[addr]''"
    by (simp add: render_call_def symbols_get_def)
  from t2 a2 have r2: "flatten_expr_with_symbols
       (Tree ''function_call''
          [Token ''ID'' ''transfer'',
           Tree ''exprs'' [Token ''ID'' ''addr'', Token ''COMMA'' '','',
                           Token ''INTEGER_LITERAL'' ''100'']])
       ?syms = ''transfer(addr, 100)''"
    by (simp add: render_call_def symbols_get_def)
  from t1 [THEN conjunct2, THEN conjunct2] same1
  have "call_args [Token ''ID'' ''balances'', Tree ''exprs'' [Token ''ID'' ''addr'']] ?syms
       = split_call_args (Some (Tree ''exprs'' [Token ''ID'' ''addr''])) ?syms"
    by simp
  with a1 have s1: "split_call_args (Some (Tree ''exprs'' [Token ''ID'' ''addr''])) ?syms
                      = [''addr'']"
    by simp
  from t2 [THEN conjunct2, THEN conjunct2] same2
  have "call_args [Token ''ID'' ''transfer'',
                               Tree ''exprs'' [Token ''ID'' ''addr'', Token ''COMMA'' '','',
                                               Token ''INTEGER_LITERAL'' ''100'']] ?syms
       = split_call_args
           (Some (Tree ''exprs'' [Token ''ID'' ''addr'', Token ''COMMA'' '','',
                                  Token ''INTEGER_LITERAL'' ''100''])) ?syms"
    by simp
  with a2 have s2: "split_call_args
       (Some (Tree ''exprs'' [Token ''ID'' ''addr'', Token ''COMMA'' '','',
                              Token ''INTEGER_LITERAL'' ''100'']))
       ?syms = [''addr'', ''100'']"
    by simp
  from n1 r1 r2 same1 same2 s1 s2 show ?thesis
    by simp
qed

section \<open>Properties of the call collection\<close>

lemma map_filter_member:
  "x \<in> set xs \<Longrightarrow> f x = Some y \<Longrightarrow> y \<in> set (List.map_filter f xs)"
  by (force simp: List.map_filter_def)

lemma map_filter_origin:
  "y \<in> set (List.map_filter f xs) \<Longrightarrow> \<exists>x\<in>set xs. f x = Some y"
  by (auto simp: List.map_filter_def)

lemma function_call_descriptor_named:
  assumes "is_tree_of ''function_call'' fc" and "callee_name (children fc) = Some n"
    and "n \<noteq> []"
  shows "function_call_descriptor fc syms =
           Some \<lparr>d_name = n, d_args = call_args (children fc) syms,
                  decl_kind = (if n \<in> symbols_get syms ''state_vars'' then ''state_var''
                               else if n \<in> symbols_get syms ''functions'' then ''function''
                               else ''unknown''),
                  attr = None,
                  rendered = render_call n (call_args (children fc) syms) syms\<rparr>"
  using assms
  by (simp add: function_call_descriptor_def get_function_call_info_def Let_def)

lemma function_call_descriptor_collected:
  "fc \<in> set (iter_subtrees_topdown e) \<Longrightarrow> function_call_descriptor fc syms = Some desc \<Longrightarrow>
     desc \<in> set (collect_call_like_from_expr (Some e) syms)"
  by (simp add: collect_call_like_from_expr_def map_filter_member)

lemma function_call_descriptor_kind:
  "function_call_descriptor fc syms = Some desc \<Longrightarrow>
     decl_kind desc = (if d_name desc \<in> symbols_get syms ''state_vars'' then ''state_var''
                       else if d_name desc \<in> symbols_get syms ''functions'' then ''function''
                       else ''unknown'')
     \<and> rendered desc = render_call (d_name desc) (d_args desc) syms"
  by (auto simp: function_call_descriptor_def Let_def split: if_splits option.splits)

lemma other_descriptor_kinds:
  "special_var_descriptor sv = Some desc \<Longrightarrow> decl_kind desc = ''state_var_attr''"
  "contract_attr_descriptor ca = Some desc \<Longrightarrow> decl_kind desc = ''contract_attr''"
  by (auto simp: special_var_descriptor_def contract_attr_descriptor_def Let_def
           split: if_splits option.splits)

lemma collected_descriptor_cases:
  assumes "desc \<in> set (collect_call_like_from_expr (Some e) syms)"
  shows "(\<exists>fc\<in>set (iter_subtrees_topdown e). function_call_descriptor fc syms = Some desc)
         \<or> decl_kind desc = ''state_var_attr'' \<or> decl_kind desc = ''contract_attr''"
  using assms
  by (auto simp: collect_call_like_from_expr_def
           dest!: map_filter_origin dest: other_descriptor_kinds)

lemma function_call_descriptor_origin:
  assumes "function_call_descriptor fc syms = Some desc"
  shows "is_tree_of ''function_call'' fc \<and> callee_name (children fc) = Some (d_name desc)
         \<and> d_name desc \<noteq> []
         \<and> desc = \<lparr>d_name = d_name desc, d_args = call_args (children fc) syms,
                     decl_kind = (if d_name desc \<in> symbols_get syms ''state_vars''
                                  then ''state_var''
                                  else if d_name desc \<in> symbols_get syms ''functions''
                                  then ''function'' else ''unknown''),
                     attr = None,
                     rendered = render_call (d_name desc) (call_args (children fc) syms) syms\<rparr>"
  using assms
  by (auto simp: function_call_descriptor_def get_function_call_info_def Let_def
           split: if_splits option.splits)

text \<open>
  C8. For every \<^verbatim>\<open>function_call\<close> subtree of the scanned expression with a callee name
  \<open>n\<close>, the scan returns its descriptor, whose \<^verbatim>\<open>decl_kind\<close> is \<^verbatim>\<open>state_var\<close> when \<open>n\<close>
  is in the \<^verbatim>\<open>state_vars\<close> set, \<^verbatim>\<open>function\<close> when it is in the \<^verbatim>\<open>functions\<close> set and
  \<^verbatim>\<open>unknown\<close> otherwise; a name in neither set still gives a descriptor (the scan has
  no failing branch), rendered in the function-call form \<^verbatim>\<open>n(a1, a2, ...)\<close>. Conversely
  every descriptor the scan returns, other than those of the two attribute kinds, is the
  descriptor of such a subtree, with the \<^verbatim>\<open>decl_kind\<close> its name has by this rule.
\<close>

theorem function_call_classification:
  assumes "fc \<in> set (iter_subtrees_topdown e)" and "is_tree_of ''function_call'' fc"
    and "callee_name (children fc) = Some n" and "n \<noteq> []"
  shows "\<lparr>d_name = n, d_args = call_args (children fc) syms,
           decl_kind = (if n \<in> symbols_get syms ''state_vars'' then ''state_var''
                        else if n \<in> symbols_get syms ''functions'' then ''function''
                        else ''unknown''),
           attr = None,
           rendered = render_call n (call_args (children fc) syms) syms\<rparr>
           \<in> set (collect_call_like_from_expr (Some e) syms)
         \<and> (n \<notin> symbols_get syms ''state_vars'' \<and> n \<notin> symbols_get syms ''functions'' \<longrightarrow>
              \<lparr>d_name = n, d_args = call_args (children fc) syms, decl_kind = ''unknown'',
                attr = None,
                rendered = n @ ''('' @ str_join '', '' (call_args (children fc) syms) @ '')''\<rparr>
                \<in> set (collect_call_like_from_expr (Some e) syms))
         \<and> (\<forall>desc\<in>set (collect_call_like_from_expr (Some e) syms).
              decl_kind desc = ''state_var_attr'' \<or> decl_kind desc = ''contract_attr''
              \<or> (\<exists>fc'\<in>set (iter_subtrees_topdown e).
                    is_tree_of ''function_call'' fc'
                    \<and> callee_name (children fc') = Some (d_name desc) \<and> d_name desc \<noteq> []
                    \<and> d_args desc = call_args (children fc') syms
                    \<and> decl_kind desc =
                        (if d_name desc \<in> symbols_get syms ''state_vars'' then ''state_var''
                         else if d_name desc \<in> symbols_get syms ''functions'' then ''function''
                         else ''unknown'')
                    \<and> attr desc = None
                    \<and> rendered desc = render_call (d_name desc) (d_args desc) syms))"
proof (intro conjI)
  let ?desc = "\<lparr>d_name = n, d_args = call_args (children fc) syms,
           decl_kind = (if n \<in> symbols_get syms ''state_vars'' then ''state_var''
                        else if n \<in> symbols_get syms ''functions'' then ''function''
                        else ''unknown''),
           attr = None,
           rendered = render_call n (call_args (children fc) syms) syms\<rparr>"
  have "function_call_descriptor fc syms = Some ?desc"
    using assms(2,3,4) by (rule function_call_descriptor_named)
  with assms(1) show mem: "?desc \<in> set (collect_call_like_from_expr (Some e) syms)"
    by (rule function_call_descriptor_collected)
  then show "n \<notin> symbols_get syms ''state_vars'' \<and> n \<notin> symbols_get syms ''functions'' \<longrightarrow>
              \<lparr>d_name = n, d_args = call_args (children fc) syms, decl_kind = ''unknown'',
                attr = None,
                rendered = n @ ''('' @ str_join '', '' (call_args (children fc) syms) @ '')''\<rparr>
                \<in> set (collect_call_like_from_expr (Some e) syms)"
    by (auto simp: render_call_def)
  show "\<forall>desc\<in>set (collect_call_like_from_expr (Some e) syms).
              decl_kind desc = ''state_var_attr'' \<or> decl_kind desc = ''contract_attr''
              \<or> (\<exists>fc'\<in>set (iter_subtrees_topdown e).
                    is_tree_of ''function_call'' fc'
                    \<and> callee_name (children fc') = Some (d_name desc) \<and> d_name desc \<noteq> []
                    \<and> d_args desc = call_args (children fc') syms
                    \<and> decl_kind desc =
                        (if d_name desc \<in> symbols_get syms ''state_vars'' then ''state_var''
                         else if d_name desc \<in> symbols_get syms ''functions'' then ''function''
                         else ''unknown'')
                    \<and> attr desc = None
                    \<and> rendered desc = render_call (d_name desc) (d_args desc) syms)"
  proof
    fix desc
    assume "desc \<in> set (collect_call_like_from_expr (Some e) syms)"
    from collected_descriptor_cases [OF this]
    show "decl_kind desc = ''state_var_attr'' \<or> decl_kind desc = ''contract_attr''
              \<or> (\<exists>fc'\<in>set (iter_subtrees_topdown e).
                    is_tree_of ''function_call'' fc'
                    \<and> callee_name (children fc') = Some (d_name desc) \<and> d_name desc \<noteq> []
                    \<and> d_args desc = call_args (children fc') syms
                    \<and> decl_kind desc =
                        (if d_name desc \<in> symbols_get syms ''state_vars'' then ''state_var''
                         else if d_name desc \<in> symbols_get syms ''functions'' then ''function''
                         else ''unknown'')
                    \<and> attr desc = None
                    \<and> rendered desc = render_call (d_name desc) (d_args desc) syms)"
    proof (elim disjE bexE)
      fix fc'
      assume in_e: "fc' \<in> set (iter_subtrees_topdown e)"
        and d: "function_call_descriptor fc' syms = Some desc"
      note o = function_call_descriptor_origin [OF d]
      from o have eq: "desc = \<lparr>d_name = d_name desc, d_args = call_args (children fc') syms,
                     decl_kind = (if d_name desc \<in> symbols_get syms ''state_vars''
                                  then ''state_var''
                                  else if d_name desc \<in> symbols_get syms ''functions''
                                  then ''function'' else ''unknown''),
                     attr = None,
                     rendered = render_call (d_name desc) (call_args (children fc') syms) syms\<rparr>"
        by simp
      have "d_args desc = call_args (children fc') syms"
        by (subst eq) simp
      moreover have "decl_kind desc =
                        (if d_name desc \<in> symbols_get syms ''state_vars'' then ''state_var''
                         else if d_name desc \<in> symbols_get syms ''functions'' then ''function''
                         else ''unknown'')"
        by (subst eq) simp
      moreover have "attr desc = None"
        by (subst eq) simp
      moreover have "rendered desc = render_call (d_name desc) (call_args (children fc') syms) syms"
        by (subst eq) simp
      ultimately show ?thesis
        using in_e o by auto
    qed simp_all
  qed
qed

theorem function_call_classification_witness:
  "\<lparr>d_name = ''foo'', d_args = [''x''], decl_kind = ''unknown'', attr = None,
     rendered = ''foo(x)''\<rparr>
     \<in> set (collect_call_like_from_expr
         (Some (Tree ''expr''
            [Tree ''function_call'' [Token ''ID'' ''foo'', Tree ''exprs'' [Token ''ID'' ''x'']]]))
         [''state_vars'' \<mapsto> {''balances''}, ''functions'' \<mapsto> {''transfer''}])
   \<and> \<lparr>d_name = ''transfer'', d_args = [''x''], decl_kind = ''function'', attr = None,
       rendered = ''transfer(x)''\<rparr>
     \<in> set (collect_call_like_from_expr
         (Some (Tree ''expr''
            [Tree ''function_call''
               [Token ''ID'' ''transfer'', Tree ''exprs'' [Token ''ID'' ''x'']]]))
         [''state_vars'' \<mapsto> {''balances''}, ''functions'' \<mapsto> {''transfer''}])"
proof -
  let ?syms = "[''state_vars'' \<mapsto> {''balances''}, ''functions'' \<mapsto> {''transfer''}]"
  have args: "call_args [Token ''ID'' nm, Tree ''exprs'' [Token ''ID'' ''x'']] ?syms = [''x'']"
    for nm
    by (simp add: call_args_runs comma_runs_def flatten_list_single_clean is_space_def)
  have sub: "Tree ''function_call'' [Token ''ID'' nm, Tree ''exprs'' [Token ''ID'' ''x'']]
               \<in> set (iter_subtrees_topdown
                   (Tree ''expr''
                      [Tree ''function_call''
                         [Token ''ID'' nm, Tree ''exprs'' [Token ''ID'' ''x'']]]))" for nm
    by simp
  have nm: "callee_name (children (Tree ''function_call''
                 [Token ''ID'' nm, Tree ''exprs'' [Token ''ID'' ''x'']])) = Some nm" for nm
    by (simp add: callee_name_def)
  show ?thesis
    using function_call_classification [OF sub _ nm, of "''foo''" ?syms]
          function_call_classification [OF sub _ nm, of "''transfer''" ?syms]
    by (simp add: args symbols_get_def render_call_def)
qed

text \<open>
  C10. For a callee name in both the \<^verbatim>\<open>state_vars\<close> and the \<^verbatim>\<open>functions\<close> set, the
  state-variable treatment wins: \<^verbatim>\<open>render_call\<close> gives the indexed form (the bare name
  without arguments), never the call form; the scan returns the descriptor of such a call
  with \<^verbatim>\<open>decl_kind\<close> \<^verbatim>\<open>state_var\<close>, and no descriptor of that name is classified
  \<^verbatim>\<open>function\<close>.
\<close>

theorem state_var_priority:
  assumes "n \<in> symbols_get syms ''state_vars''" and "n \<in> symbols_get syms ''functions''"
  shows "render_call n args syms = n @ concat (map (\<lambda>a. ''['' @ a @ '']'') args)
         \<and> (fc \<in> set (iter_subtrees_topdown e) \<and> is_tree_of ''function_call'' fc
              \<and> callee_name (children fc) = Some n \<and> n \<noteq> [] \<longrightarrow>
              \<lparr>d_name = n, d_args = call_args (children fc) syms, decl_kind = ''state_var'',
                attr = None,
                rendered = n @ concat (map (\<lambda>a. ''['' @ a @ '']'')
                                           (call_args (children fc) syms))\<rparr>
                \<in> set (collect_call_like_from_expr (Some e) syms))
         \<and> (\<forall>desc\<in>set (collect_call_like_from_expr (Some e) syms).
              d_name desc = n \<longrightarrow> decl_kind desc \<noteq> ''function'')"
proof (intro conjI)
  have r: "render_call n as syms = n @ concat (map (\<lambda>a. ''['' @ a @ '']'') as)" for as
  proof (cases "as = []")
    case True
    with assms(1) show ?thesis by (simp add: render_call_def)
  next
    case False
    have "length as = 1 \<Longrightarrow> as = [as ! 0]"
      by (cases as) auto
    then have "length as = 1 \<Longrightarrow>
                 ''['' @ as ! 0 @ '']'' = concat (map (\<lambda>a. ''['' @ a @ '']'') as)"
      by (metis (no_types, lifting) append_Nil2 concat.simps(1) concat.simps(2) list.map(1)
            list.map(2) append_assoc)
    with assms(1) False bracket_join [OF False] show ?thesis
      by (simp add: render_call_def)
  qed
  show "render_call n args syms = n @ concat (map (\<lambda>a. ''['' @ a @ '']'') args)"
    by (rule r)
  show "fc \<in> set (iter_subtrees_topdown e) \<and> is_tree_of ''function_call'' fc
          \<and> callee_name (children fc) = Some n \<and> n \<noteq> [] \<longrightarrow>
          \<lparr>d_name = n, d_args = call_args (children fc) syms, decl_kind = ''state_var'',
            attr = None,
            rendered = n @ concat (map (\<lambda>a. ''['' @ a @ '']'')
                                       (call_args (children fc) syms))\<rparr>
            \<in> set (collect_call_like_from_expr (Some e) syms)"
  proof
    assume h: "fc \<in> set (iter_subtrees_topdown e) \<and> is_tree_of ''function_call'' fc
                 \<and> callee_name (children fc) = Some n \<and> n \<noteq> []"
    then have "function_call_descriptor fc syms =
           Some \<lparr>d_name = n, d_args = call_args (children fc) syms,
                  decl_kind = (if n \<in> symbols_get syms ''state_vars'' then ''state_var''
                               else if n \<in> symbols_get syms ''functions'' then ''function''
                               else ''unknown''),
                  attr = None,
                  rendered = render_call n (call_args (children fc) syms) syms\<rparr>"
      by (intro function_call_descriptor_named) simp_all
    with h have "\<lparr>d_name = n, d_args = call_args (children fc) syms,
                  decl_kind = (if n \<in> symbols_get syms ''state_vars'' then ''state_var''
                               else if n \<in> symbols_get syms ''functions'' then ''function''
                               else ''unknown''),
                  attr = None,
                  rendered = render_call n (call_args (children fc) syms) syms\<rparr>
                  \<in> set (collect_call_like_from_expr (Some e) syms)"
      by (intro function_call_descriptor_collected) simp_all
    with assms(1) show "\<lparr>d_name = n, d_args = call_args (children fc) syms,
            decl_kind = ''state_var'', attr = None,
            rendered = n @ concat (map (\<lambda>a. ''['' @ a @ '']'')
                                       (call_args (children fc) syms))\<rparr>
            \<in> set (collect_call_like_from_expr (Some e) syms)"
      by (simp add: r)
  qed
  show "\<forall>desc\<in>set (collect_call_like_from_expr (Some e) syms).
          d_name desc = n \<longrightarrow> decl_kind desc \<noteq> ''function''"
  proof (intro ballI impI)
    fix desc
    assume mem: "desc \<in> set (collect_call_like_from_expr (Some e) syms)"
      and nm: "d_name desc = n"
    from collected_descriptor_cases [OF mem]
    show "decl_kind desc \<noteq> ''function''"
    proof (elim disjE bexE)
      fix fc'
      assume "function_call_descriptor fc' syms = Some desc"
      from function_call_descriptor_kind [OF this] nm assms(1)
      show ?thesis by simp
    qed simp_all
  qed
qed

theorem state_var_priority_witness:
  "render_call ''owner'' [''a'']
     [''state_vars'' \<mapsto> {''owner''}, ''functions'' \<mapsto> {''owner''}] = ''owner[a]''
   \<and> \<lparr>d_name = ''owner'', d_args = [''x''], decl_kind = ''state_var'', attr = None,
       rendered = ''owner[x]''\<rparr>
     \<in> set (collect_call_like_from_expr
         (Some (Tree ''expr''
            [Tree ''function_call''
               [Token ''ID'' ''owner'', Tree ''exprs'' [Token ''ID'' ''x'']]]))
         [''state_vars'' \<mapsto> {''owner''}, ''functions'' \<mapsto> {''owner''}])"
proof -
  let ?syms = "[''state_vars'' \<mapsto> {''owner''}, ''functions'' \<mapsto> {''owner''}]"
  let ?fc = "Tree ''function_call'' [Token ''ID'' ''owner'', Tree ''exprs'' [Token ''ID'' ''x'']]"
  have sv: "''owner'' \<in> symbols_get ?syms ''state_vars''"
    and fn: "''owner'' \<in> symbols_get ?syms ''functions''"
    by (simp_all add: symbols_get_def)
  have args: "call_args (children ?fc) ?syms = [''x'']"
    by (simp add: call_args_runs comma_runs_def flatten_list_single_clean is_space_def)
  have sub: "?fc \<in> set (iter_subtrees_topdown (Tree ''expr'' [?fc]))"
    by simp
  have nm: "callee_name (children ?fc) = Some ''owner''"
    by (simp add: callee_name_def)
  from state_var_priority [OF sv fn, of "[''a'']" ?fc "Tree ''expr'' [?fc]"] sub nm args
  show ?thesis
    by simp
qed

section \<open>Properties of the declaration extractor\<close>

lemma first_param_name_seen:
  "first_param_name True cs
     = find (is_token_of ''ID'') (takeWhile (\<lambda>c. \<not> is_tree_of ''param'' c) cs)"
proof (induction cs)
  case Nil
  then show ?case by simp
next
  case (Cons c cs)
  then show ?case by (cases c) auto
qed

lemma first_param_name_leading:
  "list_ex (is_tree_of ''cvl_type'') cs \<Longrightarrow> first_param_name False cs = leading_name cs"
proof (induction cs)
  case Nil
  then show ?case by simp
next
  case (Cons c cs)
  show ?case
  proof (cases "is_tree_of ''cvl_type'' c")
    case True
    then show ?thesis
      by (simp add: leading_name_def first_param_name_seen)
  next
    case False
    with Cons.prems have "list_ex (is_tree_of ''cvl_type'') cs"
      by simp
    from Cons.IH [OF this] False show ?thesis
      by (cases c) (auto simp: leading_name_def)
  qed
qed

lemma add_param_record:
  "add_param (Some t) name_tok out
     = out @ [\<lparr>p_type = flatten_tokens_only t, p_name = name_of name_tok\<rparr>]"
  by (simp add: add_param_def name_of_def)

lemma add_nested_param_record:
  "add_nested_param ch out = out @ (if is_tree_of ''param'' ch then param_record ch else [])"
  by (simp add: add_nested_param_def param_record_def add_param_def name_of_def
           split: option.splits)

lemma fold_add_nested_param:
  "fold add_nested_param cs out
     = out @ concat (map param_record (filter (is_tree_of ''param'') cs))"
  by (induction cs arbitrary: out) (simp_all add: add_nested_param_record)

lemma find_cvl_type:
  "find (is_tree_of ''cvl_type'') cs = Some ft \<Longrightarrow> list_ex (is_tree_of ''cvl_type'') cs"
  by (induction cs) (auto split: if_splits)

text \<open>
  C9. \<^verbatim>\<open>extract_rule_params\<close> returns the records in declaration order: first the
  record of the leading \<^verbatim>\<open>cvl_type\<close> child (when there is one), its type the flattened
  type and its name the first \<^verbatim>\<open>ID\<close> Leaf after that type and before any \<^verbatim>\<open>param\<close>
  sub-node; then one record for each nested \<^verbatim>\<open>param\<close> sub-node, in order, from its own
  \<^verbatim>\<open>cvl_type\<close> and its first \<^verbatim>\<open>ID\<close> token. A type without an identifier gets an absent
  name; nothing fails. (An \<^verbatim>\<open>ID\<close> token with an empty text counts as absent.)
\<close>

theorem extract_rule_params_order:
  "extract_rule_params (Some (Tree d cs)) =
     (case find (is_tree_of ''cvl_type'') cs of
        None \<Rightarrow> []
      | Some ft \<Rightarrow> [\<lparr>p_type = flatten_tokens_only ft, p_name = name_of (leading_name cs)\<rparr>])
     @ concat (map param_record (filter (is_tree_of ''param'') cs))"
proof (cases "find (is_tree_of ''cvl_type'') cs")
  case None
  then show ?thesis
    by (simp add: extract_rule_params_def fold_add_nested_param)
next
  case (Some ft)
  from find_cvl_type [OF Some] have "first_param_name False cs = leading_name cs"
    by (rule first_param_name_leading)
  with Some show ?thesis
    by (simp add: extract_rule_params_def fold_add_nested_param add_param_record)
qed

theorem extract_rule_params_order_witness:
  "extract_rule_params
     (Some (Tree ''params''
        [Tree ''cvl_type'' [Token ''UINT'' ''uint''], Token ''ID'' ''a'',
         Tree ''param'' [Tree ''cvl_type'' [Token ''ADDRESS'' ''address''], Token ''ID'' ''b''],
         Tree ''param'' [Tree ''cvl_type'' [Token ''BYTES32'' ''bytes32''], Token ''ID'' ''c'']]))
     = [\<lparr>p_type = ''uint'', p_name = Some ''a''\<rparr>,
        \<lparr>p_type = ''address'', p_name = Some ''b''\<rparr>,
        \<lparr>p_type = ''bytes32'', p_name = Some ''c''\<rparr>]
   \<and> extract_rule_params
       (Some (Tree ''params''
          [Tree ''cvl_type'' [Token ''UINT'' ''uint''],
           Tree ''param'' [Tree ''cvl_type'' [Token ''ADDRESS'' ''address''], Token ''ID'' ''b'']]))
     = [\<lparr>p_type = ''uint'', p_name = None\<rparr>,
        \<lparr>p_type = ''address'', p_name = Some ''b''\<rparr>]"
proof -
  have ty: "str_strip (fixups ''uint'') = ''uint''"
    "str_strip (fixups ''address'') = ''address''"
    "str_strip (fixups ''bytes32'') = ''bytes32''"
    by (simp_all add: fixups_clean str_strip_clean is_space_def)
  show ?thesis
    using extract_rule_params_order [of "''params''"
            "[Tree ''cvl_type'' [Token ''UINT'' ''uint''], Token ''ID'' ''a'',
              Tree ''param'' [Tree ''cvl_type'' [Token ''ADDRESS'' ''address''],
                              Token ''ID'' ''b''],
              Tree ''param'' [Tree ''cvl_type'' [Token ''BYTES32'' ''bytes32''],
                              Token ''ID'' ''c'']]"]
          extract_rule_params_order [of "''params''"
            "[Tree ''cvl_type'' [Token ''UINT'' ''uint''],
              Tree ''param'' [Tree ''cvl_type'' [Token ''ADDRESS'' ''address''],
                              Token ''ID'' ''b'']]"]
    by (simp add: ty leading_name_def name_of_def param_record_def)
qed

end
